theory Spec2Isabelle
  imports Complex_Main
begin

section \<open>Python floats\<close>

text \<open>
  \<open>generate_icon.py\<close> computes the gradient colours and the glow alpha in Python floats
  (IEEE 754 binary64, round to nearest, ties to even). A finite float is modelled as a pair
  \<open>(m, e)\<close> of integers standing for \<open>m * 2 ^ e\<close>; every operation computes the exact
  result and rounds it to a 53-bit significand with \<open>rnd53\<close>. The exponent range is not
  modelled: all values of the scripts lie between \<open>2 ^ -60\<close> and \<open>2 ^ 10\<close> in magnitude
  (or are zero), far from overflow and from subnormal numbers. Divisors are the non-zero
  literals and constants of the scripts, so ZeroDivisionError cannot arise.
\<close>

type_synonym dbl = "int \<times> int"

text \<open>\<open>bitlen n\<close> is the number of binary digits of a positive integer.\<close>

function bitlen :: "int \<Rightarrow> nat" where
  "bitlen n = (if n \<le> 0 then 0 else Suc (bitlen (n div 2)))"
  by pat_completeness auto
termination
  by (relation "measure nat") auto

declare bitlen.simps [simp del]

text \<open>
  \<open>round_shift a k\<close> is \<open>a / 2 ^ k\<close> rounded to the nearest integer, ties to even;
  \<open>rnd53\<close> keeps the 53 leading bits of a significand that way.
\<close>

definition round_shift :: "int \<Rightarrow> nat \<Rightarrow> int" where
  "round_shift a k =
     (if 2 ^ (k - 1) < a mod 2 ^ k \<or> (a mod 2 ^ k = 2 ^ (k - 1) \<and> odd (a div 2 ^ k))
      then a div 2 ^ k + 1 else a div 2 ^ k)"

definition round_to :: "int \<times> int \<Rightarrow> nat \<Rightarrow> dbl" where
  "round_to v n =
     (if n \<le> 53 then v
      else (sgn (fst v) * round_shift \<bar>fst v\<bar> (n - 53), snd v + int (n - 53)))"

definition rnd53 :: "int \<times> int \<Rightarrow> dbl" where
  "rnd53 v = round_to v (bitlen \<bar>fst v\<bar>)"

text \<open>
  \<open>dof_int\<close> is the conversion of a Python int to float, \<open>dmul\<close>, \<open>dadd\<close>, \<open>dsub\<close>
  and \<open>ddiv\<close> are \<open>*\<close>, \<open>+\<close>, \<open>-\<close> and \<open>/\<close> on floats, \<open>dlt\<close> is \<open><\<close> and
  \<open>dtrunc\<close> is \<open>int()\<close>. The quotient is computed with a sticky bit: 56 or more
  quotient bits and one bit that records a non-zero remainder, so that rounding the pair
  rounds the exact quotient. \<open>x ** 2\<close> is modelled as the correctly rounded product.
\<close>

definition dof_int :: "int \<Rightarrow> dbl" where
  "dof_int n = rnd53 (n, 0)"

definition dmul :: "dbl \<Rightarrow> dbl \<Rightarrow> dbl" where
  "dmul a b = rnd53 (fst a * fst b, snd a + snd b)"

definition align :: "dbl \<Rightarrow> int \<Rightarrow> int" where
  "align a e = fst a * 2 ^ nat (snd a - e)"

definition dadd :: "dbl \<Rightarrow> dbl \<Rightarrow> dbl" where
  "dadd a b =
     rnd53 (align a (min (snd a) (snd b)) + align b (min (snd a) (snd b)), min (snd a) (snd b))"

definition dsub :: "dbl \<Rightarrow> dbl \<Rightarrow> dbl" where
  "dsub a b = dadd a (- fst b, snd b)"

definition sticky_quot :: "int \<Rightarrow> int \<Rightarrow> int" where
  "sticky_quot n d = 2 * (n div d) + (if n mod d = 0 then 0 else 1)"

definition ddiv :: "dbl \<Rightarrow> dbl \<Rightarrow> dbl" where
  "ddiv a b =
     rnd53 (sgn (fst a) * sgn (fst b)
              * sticky_quot (\<bar>fst a\<bar> * 2 ^ (bitlen \<bar>fst b\<bar> + 55)) \<bar>fst b\<bar>,
            snd a - snd b - int (bitlen \<bar>fst b\<bar>) - 56)"

definition dlt :: "dbl \<Rightarrow> dbl \<Rightarrow> bool" where
  "dlt a b = (align a (min (snd a) (snd b)) < align b (min (snd a) (snd b)))"

definition dsq :: "dbl \<Rightarrow> dbl" where
  "dsq a = dmul a a"

definition dtrunc :: "dbl \<Rightarrow> int" where
  "dtrunc a =
     (if 0 \<le> snd a then fst a * 2 ^ nat (snd a)
      else sgn (fst a) * (\<bar>fst a\<bar> div 2 ^ nat (- snd a)))"

text \<open>The real number a float stands for, and Python's \<open>int()\<close> on reals (truncation).\<close>

definition val :: "dbl \<Rightarrow> real" where
  "val a = of_int (fst a) * 2 powi snd a"

definition rtrunc :: "real \<Rightarrow> int" where
  "rtrunc q = (if 0 \<le> q then \<lfloor>q\<rfloor> else - \<lfloor>- q\<rfloor>)"


section \<open>Pillow images\<close>

text \<open>
  A Pillow image is a size and a pixel buffer. The buffer is a function from coordinates
  to pixel values; only the coordinates inside the size belong to the image. Coordinates
  and channel values are Python integers; an RGBA pixel is a 4-tuple, a pixel of mode L
  one integer.
\<close>

type_synonym rgb = "int \<times> int \<times> int"
type_synonym rgba = "int \<times> int \<times> int \<times> int"

record 'a image =
  width :: int
  height :: int
  px :: "int \<times> int \<Rightarrow> 'a"

datatype py_error = IndexError | FileNotFoundError | UnidentifiedImageError | OSError

definition in_image :: "'a image \<Rightarrow> int \<times> int \<Rightarrow> bool" where
  "in_image img p = (0 \<le> fst p \<and> fst p < width img \<and> 0 \<le> snd p \<and> snd p < height img)"

text \<open>
  \<open>Image.getpixel((x, y))\<close>: a negative coordinate counts from the far edge (Pillow adds
  the width or the height to it, once), and a position that is then outside the image
  raises IndexError.
\<close>

definition wrap_index :: "int \<Rightarrow> int \<Rightarrow> int" where
  "wrap_index n i = (if i < 0 then n + i else i)"

definition wrap_xy :: "'a image \<Rightarrow> int \<times> int \<Rightarrow> int \<times> int" where
  "wrap_xy img p = (wrap_index (width img) (fst p), wrap_index (height img) (snd p))"

definition getpixel :: "'a image \<Rightarrow> int \<times> int \<Rightarrow> py_error + 'a" where
  "getpixel img p =
     (if in_image img (wrap_xy img p) then Inr (px img (wrap_xy img p)) else Inl IndexError)"

definition size_of :: "'a image \<Rightarrow> int \<times> int" where
  "size_of img = (width img, height img)"

fun alpha_of :: "rgba \<Rightarrow> int" where
  "alpha_of (r, g, b, a) = a"

fun with_alpha :: "rgb \<Rightarrow> int \<Rightarrow> rgba" where
  "with_alpha (r, g, b) a = (r, g, b, a)"

text \<open>\<open>Image.new(mode, size, color)\<close>: every pixel has the given colour.\<close>

definition new_image :: "int \<times> int \<Rightarrow> 'a \<Rightarrow> 'a image" where
  "new_image sz color = \<lparr> width = fst sz, height = snd sz, px = (\<lambda>p. color) \<rparr>"

text \<open>
  The drawing primitives of \<open>ImageDraw\<close> replace the pixels a shape covers by the fill
  value (on an image of the drawing's own mode nothing is blended). A shape is the set of
  pixels it covers. A horizontal line covers the pixels between its end points, both
  included.
\<close>

type_synonym shape = "int \<times> int \<Rightarrow> bool"

definition draw_shape :: "shape \<Rightarrow> 'a \<Rightarrow> 'a image \<Rightarrow> 'a image" where
  "draw_shape covers fill img = img \<lparr> px := (\<lambda>p. if covers p then fill else px img p) \<rparr>"

definition hline_covers :: "int \<Rightarrow> int \<Rightarrow> int \<Rightarrow> shape" where
  "hline_covers x0 x1 y p = (snd p = y \<and> x0 \<le> fst p \<and> fst p \<le> x1)"

text \<open>
  Which pixels \<open>ImageDraw.ellipse([x0, y0, x1, y1])\<close> and
  \<open>ImageDraw.rounded_rectangle([(x0, y0), (x1, y1)], radius)\<close> cover is decided by Pillow's
  rasteriser, which is not part of the repository: the scripts are modelled for an
  arbitrary one.
\<close>

record raster =
  ellipse :: "int \<times> int \<times> int \<times> int \<Rightarrow> shape"
  rounded_rectangle :: "(int \<times> int) \<times> (int \<times> int) \<Rightarrow> int \<Rightarrow> shape"

text \<open>
  \<open>Image.putalpha(alpha)\<close> with an image of mode L of the same size: the alpha band is
  replaced by the given image, the colour bands stay. (A size mismatch raises ValueError;
  both images of \<open>create_icon\<close> are built with the size \<open>(SIZE, SIZE)\<close>.)
\<close>

fun set_alpha :: "rgba \<Rightarrow> int \<Rightarrow> rgba" where
  "set_alpha (r, g, b, a) m = (r, g, b, m)"

definition putalpha :: "rgba image \<Rightarrow> int image \<Rightarrow> rgba image" where
  "putalpha img m = img \<lparr> px := (\<lambda>p. set_alpha (px img p) (px m p)) \<rparr>"

text \<open>
  \<open>Image.alpha_composite(im1, im2)\<close> puts \<open>im2\<close> over \<open>im1\<close>, pixel by pixel, in
  Pillow's integer arithmetic: \<open>div255\<close> is its rounded division by 255, and the colour
  coefficients carry seven extra bits.
\<close>

definition shift_div255 :: "int \<Rightarrow> int" where
  "shift_div255 a = (a div 256 + a) div 256"

definition div255 :: "int \<Rightarrow> int" where
  "div255 a = shift_div255 (a + 128)"

definition over_coef :: "int \<Rightarrow> int \<Rightarrow> int" where
  "over_coef da sa = (sa * 255 * 255 * 128) div (sa * 255 + da * (255 - sa))"

definition over_channel :: "int \<Rightarrow> int \<Rightarrow> int \<Rightarrow> int \<Rightarrow> int" where
  "over_channel da sa d s =
     shift_div255 (s * over_coef da sa + d * (255 * 128 - over_coef da sa) + 128 * 128) div 128"

fun over :: "rgba \<Rightarrow> rgba \<Rightarrow> rgba" where
  "over (dr, dg, db, da) (sr, sg, sb, sa) =
     (if sa = 0 then (dr, dg, db, da)
      else (over_channel da sa dr sr, over_channel da sa dg sg, over_channel da sa db sb,
            div255 (sa * 255 + da * (255 - sa))))"

definition alpha_composite :: "rgba image \<Rightarrow> rgba image \<Rightarrow> rgba image" where
  "alpha_composite im1 im2 = im1 \<lparr> px := (\<lambda>p. over (px im1 p) (px im2 p)) \<rparr>"

text \<open>
  Pillow blends through a mask of mode L with \<open>blend8\<close>: mask 255 stores the second
  value, mask 0 keeps the first.
\<close>

definition blend8 :: "int \<Rightarrow> int \<Rightarrow> int \<Rightarrow> int" where
  "blend8 m in1 in2 = div255 (in1 * (255 - m) + in2 * m)"

fun blend_pixel :: "int \<Rightarrow> rgba \<Rightarrow> rgba \<Rightarrow> rgba" where
  "blend_pixel m (r, g, b, a) (ir, ig, ib, ia) =
     (blend8 m r ir, blend8 m g ig, blend8 m b ib, blend8 m a ia)"

text \<open>
  A font is what \<open>create_icon\<close> uses of it: the bounding box \<open>textbbox((0, 0), "L")\<close>
  and the rasterised letter, a coverage between 0 and 255 for every pixel, which depends
  on the position the text is drawn at. \<open>draw.text\<close> fills the ink through that
  coverage: a pixel with coverage 0 is not touched, the alpha band is blended with the
  coverage, and so are the colour bands, except on a fully transparent pixel, which takes
  the colour of the ink whole. Every font has a bounding box, the built-in one too, as in
  current Pillow.
\<close>

record font =
  textbbox :: "int \<times> int \<times> int \<times> int"
  glyph_mask :: "dbl \<times> dbl \<Rightarrow> int \<times> int \<Rightarrow> int"

definition channel_mask :: "int \<Rightarrow> int \<Rightarrow> int" where
  "channel_mask m a = (if a = 0 then 255 else m)"

fun fill_pixel :: "int \<Rightarrow> rgba \<Rightarrow> rgba \<Rightarrow> rgba" where
  "fill_pixel m (r, g, b, a) (ir, ig, ib, ia) =
     (if m = 0 then (r, g, b, a)
      else (blend8 (channel_mask m a) r ir, blend8 (channel_mask m a) g ig,
            blend8 (channel_mask m a) b ib, blend8 m a ia))"

definition draw_text :: "font \<Rightarrow> dbl \<times> dbl \<Rightarrow> rgba \<Rightarrow> rgba image \<Rightarrow> rgba image" where
  "draw_text f xy ink img =
     img \<lparr> px := (\<lambda>p. fill_pixel (glyph_mask f xy p) (px img p) ink) \<rparr>"

text \<open>
  The part of the machine the scripts read: which paths exist, what
  \<open>ImageFont.truetype(path, size)\<close> gives for a path (a font, or an exception), and the
  built-in font of \<open>ImageFont.load_default()\<close>.
\<close>

record env =
  path_exists :: "string \<Rightarrow> bool"
  truetype :: "string \<Rightarrow> int \<Rightarrow> py_error + font"
  load_default :: font

section \<open>generate\_icon.py\<close>

definition SIZE :: int where "SIZE = 1024"

text \<open>
  \<^verbatim>\<open>
  def lerp_color(c1, c2, t):
      return tuple(int(c1[i] + (c2[i] - c1[i]) * t) for i in range(3))
  \<close>
  The channels are Python ints and \<open>t\<close> is a float: the difference is an exact integer,
  the product and the sum are float operations, and \<open>int()\<close> truncates.
\<close>

definition lerp_channel :: "int \<Rightarrow> int \<Rightarrow> dbl \<Rightarrow> int" where
  "lerp_channel a b t = dtrunc (dadd (dof_int a) (dmul (dof_int (b - a)) t))"

fun lerp_color :: "rgb \<Rightarrow> rgb \<Rightarrow> dbl \<Rightarrow> rgb" where
  "lerp_color (r1, g1, b1) (r2, g2, b2) t =
     (lerp_channel r1 r2 t, lerp_channel g1 g2 t, lerp_channel b1 b2 t)"

definition color_top :: rgb where "color_top = (245, 230, 211)"
definition color_mid1 :: rgb where "color_mid1 = (229, 160, 92)"
definition color_mid2 :: rgb where "color_mid2 = (217, 133, 59)"
definition color_bottom :: rgb where "color_bottom = (184, 114, 46)"

definition corner_radius :: int where "corner_radius = 224"

text \<open>The float literals \<open>0.3\<close>, \<open>0.6\<close> and \<open>0.4\<close>: the floats nearest to the decimals.\<close>

definition lit_0_3 :: dbl where "lit_0_3 = ddiv (3, 0) (10, 0)"
definition lit_0_6 :: dbl where "lit_0_6 = ddiv (6, 0) (10, 0)"
definition lit_0_4 :: dbl where "lit_0_4 = ddiv (4, 0) (10, 0)"

text \<open>
  The body of the gradient loop, for the float \<open>t = y / SIZE\<close>:
  \<^verbatim>\<open>
  if t < 0.3:
      color = lerp_color(color_top, color_mid1, t / 0.3)
  elif t < 0.6:
      color = lerp_color(color_mid1, color_mid2, (t - 0.3) / 0.3)
  else:
      color = lerp_color(color_mid2, color_bottom, (t - 0.6) / 0.4)
  draw.line([(0, y), (SIZE - 1, y)], fill=(*color, 255))
  \<close>
\<close>

definition gradient_at :: "dbl \<Rightarrow> rgb" where
  "gradient_at t =
     (if dlt t lit_0_3 then lerp_color color_top color_mid1 (ddiv t lit_0_3)
      else if dlt t lit_0_6 then lerp_color color_mid1 color_mid2 (ddiv (dsub t lit_0_3) lit_0_3)
      else lerp_color color_mid2 color_bottom (ddiv (dsub t lit_0_6) lit_0_4))"

definition row_color :: "int \<Rightarrow> rgb" where
  "row_color y = gradient_at (ddiv (dof_int y) (dof_int SIZE))"

definition draw_row :: "int \<Rightarrow> rgba image \<Rightarrow> rgba image" where
  "draw_row y img = draw_shape (hline_covers 0 (SIZE - 1) y) (with_alpha (row_color y) 255) img"

text \<open>\<open>for y in range(SIZE)\<close> runs over \<open>0, \<dots>, SIZE - 1\<close> in that order.\<close>

definition gradient_canvas :: "rgba image" where
  "gradient_canvas = fold draw_row [0..SIZE - 1] (new_image (SIZE, SIZE) (0, 0, 0, 0))"

text \<open>
  \<^verbatim>\<open>
  mask = Image.new('L', (SIZE, SIZE), 0)
  mask_draw.rounded_rectangle([(0, 0), (SIZE - 1, SIZE - 1)], radius=corner_radius, fill=255)
  \<close>
\<close>

definition mask :: "raster \<Rightarrow> int image" where
  "mask ras =
     draw_shape (rounded_rectangle ras ((0, 0), (SIZE - 1, SIZE - 1)) corner_radius) 255
       (new_image (SIZE, SIZE) 0)"

text \<open>
  Python's \<open>range(start, stop, step)\<close>. (A zero step raises ValueError in Python; the
  scripts call it with the step \<open>-2\<close>.)
\<close>

function py_range :: "int \<Rightarrow> int \<Rightarrow> int \<Rightarrow> int list" where
  "py_range start stop step =
     (if (0 < step \<and> start < stop) \<or> (step < 0 \<and> stop < start)
      then start # py_range (start + step) stop step else [])"
  by pat_completeness auto
termination
  by (relation "measure (\<lambda>(start, stop, step).
         nat (if 0 < step then stop - start else start - stop))") auto

declare py_range.simps [simp del]

text \<open>
  The glow:
  \<^verbatim>\<open>
  center_x, center_y = SIZE // 2, SIZE // 3
  max_radius = SIZE // 2
  for r in range(max_radius, 0, -2):
      alpha = int(40 * (1 - r / max_radius) ** 2)
      glow_draw.ellipse([center_x - r, center_y - r, center_x + r, center_y + r],
                        fill=(255, 255, 255, alpha))
  \<close>
  \<open>glow_layer\<close> takes the list of radii in drawing order; the script's is \<open>glow_radii\<close>.
\<close>

definition center_x :: int where "center_x = SIZE div 2"
definition center_y :: int where "center_y = SIZE div 3"
definition max_radius :: int where "max_radius = SIZE div 2"

definition glow_radii :: "int list" where
  "glow_radii = py_range max_radius 0 (- 2)"

definition glow_alpha :: "int \<Rightarrow> int" where
  "glow_alpha r =
     dtrunc (dmul (dof_int 40) (dsq (dsub (dof_int 1) (ddiv (dof_int r) (dof_int max_radius)))))"

definition circle_box :: "int \<Rightarrow> int \<times> int \<times> int \<times> int" where
  "circle_box r = (center_x - r, center_y - r, center_x + r, center_y + r)"

definition draw_glow_circle :: "raster \<Rightarrow> int \<Rightarrow> rgba image \<Rightarrow> rgba image" where
  "draw_glow_circle ras r img =
     draw_shape (ellipse ras (circle_box r)) (255, 255, 255, glow_alpha r) img"

definition glow_layer :: "raster \<Rightarrow> int list \<Rightarrow> rgba image" where
  "glow_layer ras radii =
     fold (draw_glow_circle ras) radii (new_image (SIZE, SIZE) (0, 0, 0, 0))"

text \<open>
  Font resolution:
  \<^verbatim>\<open>
  font = None
  for fp in font_paths:
      if os.path.exists(fp):
          try:
              font = ImageFont.truetype(fp, font_size)
              break
          except:
              continue
  if font is None:
      font = ImageFont.load_default()
  \<close>
\<close>

definition font_paths :: "string list" where
  "font_paths =
     [''/System/Library/Fonts/Supplemental/Georgia Bold.ttf'',
      ''/System/Library/Fonts/Supplemental/Georgia.ttf'',
      ''/System/Library/Fonts/Supplemental/Times New Roman Bold.ttf'',
      ''/System/Library/Fonts/NewYork.ttf'',
      ''/System/Library/Fonts/Helvetica.ttc'',
      ''/System/Library/Fonts/SFCompact.ttf'']"

definition font_size :: int where "font_size = 520"

fun find_font :: "env \<Rightarrow> string list \<Rightarrow> font option" where
  "find_font e [] = None"
| "find_font e (fp # fps) =
     (if path_exists e fp then
        (case truetype e fp font_size of
           Inr f \<Rightarrow> Some f
         | Inl err \<Rightarrow> find_font e fps)
      else find_font e fps)"

definition resolve_font :: "env \<Rightarrow> font" where
  "resolve_font e = (case find_font e font_paths of None \<Rightarrow> load_default e | Some f \<Rightarrow> f)"

text \<open>
  The position of the letter, in floats:
  \<^verbatim>\<open>
  bbox = draw.textbbox((0, 0), letter, font=font)
  text_width = bbox[2] - bbox[0]
  text_height = bbox[3] - bbox[1]
  x = (SIZE - text_width) / 2 - bbox[0]
  y = (SIZE - text_height) / 2 - bbox[1] - 10
  \<close>
\<close>

fun text_x :: "int \<times> int \<times> int \<times> int \<Rightarrow> dbl" where
  "text_x (b0, b1, b2, b3) =
     dsub (ddiv (dof_int (SIZE - (b2 - b0))) (dof_int 2)) (dof_int b0)"

fun text_y :: "int \<times> int \<times> int \<times> int \<Rightarrow> dbl" where
  "text_y (b0, b1, b2, b3) =
     dsub (dsub (ddiv (dof_int (SIZE - (b3 - b1))) (dof_int 2)) (dof_int b1)) (dof_int 10)"

definition shadow_offset :: int where "shadow_offset = 6"

text \<open>
  \<open>create_icon\<close>, stage by stage; each stage is the value of \<open>img\<close> after one of the
  script's steps. Console messages are not part of the model. The parameters are Pillow's
  rasteriser and the machine the script runs on.
\<close>

definition masked_gradient :: "raster \<Rightarrow> rgba image" where
  "masked_gradient ras = putalpha gradient_canvas (mask ras)"

definition glow_composite :: "raster \<Rightarrow> rgba image" where
  "glow_composite ras = alpha_composite (masked_gradient ras) (glow_layer ras glow_radii)"

definition masked_glow :: "raster \<Rightarrow> rgba image" where
  "masked_glow ras = putalpha (glow_composite ras) (mask ras)"

definition with_shadow :: "raster \<Rightarrow> font \<Rightarrow> rgba image" where
  "with_shadow ras f =
     draw_text f (dadd (text_x (textbbox f)) (dof_int shadow_offset),
                  dadd (text_y (textbbox f)) (dof_int shadow_offset))
       (0, 0, 0, 35) (masked_glow ras)"

definition with_letter :: "raster \<Rightarrow> font \<Rightarrow> rgba image" where
  "with_letter ras f =
     draw_text f (text_x (textbbox f), text_y (textbbox f)) (255, 255, 255, 245)
       (with_shadow ras f)"

definition create_icon :: "raster \<Rightarrow> env \<Rightarrow> rgba image" where
  "create_icon ras e = putalpha (with_letter ras (resolve_font e)) (mask ras)"

section \<open>process\_icon.py\<close>

text \<open>
  \<open>Image.crop((left, upper, right, lower))\<close>: the result has the size
  \<open>(right - left, lower - upper)\<close>; its pixel \<open>(x, y)\<close> is the source's pixel
  \<open>(x + left, y + upper)\<close>, and the value \<open>zero\<close> of the mode where that lies outside
  the source.
\<close>

fun crop :: "'a \<Rightarrow> 'a image \<Rightarrow> int \<times> int \<times> int \<times> int \<Rightarrow> 'a image" where
  "crop zero img (left, upper, right, lower) =
     \<lparr> width = max 0 (right - left),
       height = max 0 (lower - upper),
       px = (\<lambda>p. if in_image img (fst p + left, snd p + upper)
                  then px img (fst p + left, snd p + upper) else zero) \<rparr>"

text \<open>
  \<^verbatim>\<open>
  def crop_square_center(img):
      w, h = img.size
      side = min(w, h)
      left = (w - side) // 2
      top = (h - side) // 2
      return img.crop((left, top, left + side, top + side))
  \<close>
  \<open>crop_box\<close> is the tuple handed to \<open>img.crop\<close>.
\<close>

definition crop_box :: "'a image \<Rightarrow> int \<times> int \<times> int \<times> int" where
  "crop_box img =
     (let w = width img; h = height img;
          side = min w h;
          left = (w - side) div 2;
          top = (h - side) div 2
      in (left, top, left + side, top + side))"

definition crop_square_center :: "'a \<Rightarrow> 'a image \<Rightarrow> 'a image" where
  "crop_square_center zero img = crop zero img (crop_box img)"

text \<open>
  \<open>Image.resize(size, Image.LANCZOS)\<close>: Pillow returns a copy of the image when the
  requested size is the image's own, and resamples otherwise. The Lanczos resampling itself
  is a parameter.
\<close>

type_synonym resampler = "int \<times> int \<Rightarrow> rgba image \<Rightarrow> rgba image"

definition resize :: "resampler \<Rightarrow> int \<times> int \<Rightarrow> rgba image \<Rightarrow> rgba image" where
  "resize lanczos sz img = (if size_of img = sz then img else lanczos sz img)"

text \<open>
  \<open>Image.paste(im, (x, y), mask)\<close> with an RGBA image as its own mask: inside the box
  the pasted pixel is blended into every band with its alpha.
\<close>

definition paste :: "rgba image \<Rightarrow> int \<times> int \<Rightarrow> rgba image \<Rightarrow> rgba image" where
  "paste small off img =
     img \<lparr> px := (\<lambda>p. if in_image small (fst p - fst off, snd p - snd off)
                       then blend_pixel (alpha_of (px small (fst p - fst off, snd p - snd off)))
                              (px img p) (px small (fst p - fst off, snd p - snd off))
                       else px img p) \<rparr>"

text \<open>
  \<^verbatim>\<open>
  def create_splash(icon, target_size=1024):
      splash = Image.new('RGBA', (target_size, target_size), (254, 253, 251, 255))
      icon_size = int(target_size * 0.4)
      small_icon = icon.resize((icon_size, icon_size), Image.LANCZOS)
      offset = (target_size - icon_size) // 2
      splash.paste(small_icon, (offset, offset), small_icon)
      return splash
  \<close>
\<close>

definition splash_icon_size :: "int \<Rightarrow> int" where
  "splash_icon_size target_size = dtrunc (dmul (dof_int target_size) lit_0_4)"

definition create_splash :: "resampler \<Rightarrow> rgba image \<Rightarrow> int \<Rightarrow> rgba image" where
  "create_splash lanczos icon target_size =
     paste (resize lanczos (splash_icon_size target_size, splash_icon_size target_size) icon)
       ((target_size - splash_icon_size target_size) div 2,
        (target_size - splash_icon_size target_size) div 2)
       (new_image (target_size, target_size) (254, 253, 251, 255))"

text \<open>
  The file system: a file holds a decodable image or something else, and a path can or
  cannot be written. \<open>Image.open(path).convert('RGBA')\<close> raises when the path does not
  exist or the file is not an image; \<open>save\<close> raises when the path cannot be written.
\<close>

datatype fs_entry = ImageFile "rgba image" | OtherFile

record world =
  files :: "string \<Rightarrow> fs_entry option"
  writable :: "string \<Rightarrow> bool"

definition image_open :: "world \<Rightarrow> string \<Rightarrow> py_error + rgba image" where
  "image_open w path =
     (case files w path of
        None \<Rightarrow> Inl FileNotFoundError
      | Some OtherFile \<Rightarrow> Inl UnidentifiedImageError
      | Some (ImageFile img) \<Rightarrow> Inr img)"

definition save :: "world \<Rightarrow> string \<Rightarrow> rgba image \<Rightarrow> py_error + world" where
  "save w path img =
     (if writable w path then Inr (w \<lparr> files := (files w)(path \<mapsto> ImageFile img) \<rparr>)
      else Inl OSError)"

definition SOURCE :: string where
  "SOURCE = ''/Users/francesco.pontrandolfo/Downloads/Gemini_Generated_Image_1revf41revf41rev.png''"

definition ASSETS_DIR :: string where
  "ASSETS_DIR = ''/Users/francesco.pontrandolfo/Lena/assets''"

definition TARGET_SIZE :: int where "TARGET_SIZE = 1024"

definition asset_path :: "string \<Rightarrow> string" where
  "asset_path name = ASSETS_DIR @ ''/'' @ name"

definition asset_names :: "string list" where
  "asset_names = [''icon.png'', ''adaptive-icon.png'', ''splash-icon.png'', ''favicon.png'']"

text \<open>The closing loop of the script opens each written file again.\<close>

fun verify :: "world \<Rightarrow> string list \<Rightarrow> py_error + unit" where
  "verify w [] = Inr ()"
| "verify w (name # names) =
     (case image_open w (asset_path name) of
        Inl err \<Rightarrow> Inl err
      | Inr img \<Rightarrow> verify w names)"

text \<open>
  The main program of \<open>process_icon.py\<close>: the result is the exception that ended the run,
  or \<open>()\<close>, together with the world the run leaves behind.
\<close>

definition write_assets :: "resampler \<Rightarrow> rgba image \<Rightarrow> world \<Rightarrow> (py_error + unit) \<times> world" where
  "write_assets lanczos icon w =
     (case save w (asset_path ''icon.png'') icon of
        Inl err \<Rightarrow> (Inl err, w)
      | Inr w1 \<Rightarrow>
     (case save w1 (asset_path ''adaptive-icon.png'') icon of
        Inl err \<Rightarrow> (Inl err, w1)
      | Inr w2 \<Rightarrow>
     (case save w2 (asset_path ''splash-icon.png'') (create_splash lanczos icon 1024) of
        Inl err \<Rightarrow> (Inl err, w2)
      | Inr w3 \<Rightarrow>
     (case save w3 (asset_path ''favicon.png'') (resize lanczos (48, 48) icon) of
        Inl err \<Rightarrow> (Inl err, w3)
      | Inr w4 \<Rightarrow> (verify w4 asset_names, w4)))))"

definition process_main :: "resampler \<Rightarrow> world \<Rightarrow> (py_error + unit) \<times> world" where
  "process_main lanczos w =
     (case image_open w SOURCE of
        Inl err \<Rightarrow> (Inl err, w)
      | Inr img \<Rightarrow>
          write_assets lanczos
            (resize lanczos (TARGET_SIZE, TARGET_SIZE) (crop_square_center (0, 0, 0, 0) img)) w)"

section \<open>The formulas of the specification\<close>

text \<open>
  The gradient as the specification words it, over the real numbers: with \<open>t = y / S\<close>,
  the colour is \<open>interpolate\<close> between two stops, where \<open>interpolate a b f\<close> is
  \<open>a + (b - a) * f\<close> per channel, truncated to an integer.
\<close>

fun interpolate :: "rgb \<Rightarrow> rgb \<Rightarrow> real \<Rightarrow> rgb" where
  "interpolate (r1, g1, b1) (r2, g2, b2) f =
     (rtrunc (of_int r1 + of_int (r2 - r1) * f),
      rtrunc (of_int g1 + of_int (g2 - g1) * f),
      rtrunc (of_int b1 + of_int (b2 - b1) * f))"

definition spec_gradient_at :: "real \<Rightarrow> rgb" where
  "spec_gradient_at t =
     (if t < 3 / 10 then interpolate color_top color_mid1 (t / (3 / 10))
      else if t < 6 / 10 then interpolate color_mid1 color_mid2 ((t - 3 / 10) / (3 / 10))
      else interpolate color_mid2 color_bottom ((t - 6 / 10) / (4 / 10)))"

definition spec_row_color :: "int \<Rightarrow> rgb" where
  "spec_row_color y = spec_gradient_at (of_int y / of_int SIZE)"

text \<open>The glow alpha as the specification words it: \<open>floor (40 * (1 - r / R)\<^sup>2)\<close>.\<close>

definition spec_glow_alpha :: "int \<Rightarrow> int" where
  "spec_glow_alpha r = \<lfloor>40 * (1 - real_of_int r / real_of_int max_radius)\<^sup>2\<rfloor>"



section \<open>Auxiliary notions of the proofs\<close>

text \<open>
  The exact value of a channel is a fraction \<open>N / D\<close> with \<open>D\<close> 3072 or 4096. Where
  \<open>D\<close> does not divide \<open>N\<close> the float result is too close to it to truncate elsewhere;
  \<open>nonint\<close> says so for the three channels of a row, \<open>generic_row\<close> picks the segment.
  On the remaining rows, \<open>special_rows\<close>, some channel is an exact integer and both
  computations are evaluated.
\<close>

fun nonint :: "int \<Rightarrow> int \<Rightarrow> rgb \<Rightarrow> rgb \<Rightarrow> bool" where
  "nonint D K (r1, g1, b1) (r2, g2, b2) =
     (\<not> D dvd (r2 - r1) * K \<and> \<not> D dvd (g2 - g1) * K \<and> \<not> D dvd (b2 - b1) * K)"

definition generic_row :: "int \<Rightarrow> bool" where
  "generic_row y =
     (if y \<le> 307 then nonint 3072 (10 * y) color_top color_mid1
      else if y \<le> 614 then nonint 3072 (10 * y - 3072) color_mid1 color_mid2
      else nonint 4096 (10 * y - 6144) color_mid2 color_bottom)"

definition special_rows :: "int list" where
  "special_rows = [0, 96, 192, 288, 384, 512]"

definition row_checked :: "int \<Rightarrow> bool" where
  "row_checked y = (generic_row y \<or> y \<in> set special_rows)"

definition row_agrees :: "int \<Rightarrow> bool" where
  "row_agrees y = (row_color y = spec_row_color y)"

fun channels_in_range :: "rgb \<Rightarrow> bool" where
  "channels_in_range (r, g, b) = (0 < r \<and> r \<le> 255 \<and> 0 < g \<and> g \<le> 255 \<and> 0 < b \<and> b \<le> 255)"


text \<open>
  The same for the glow: the exact alpha is \<open>40 * (512 - r)\<^sup>2 / 2 ^ 18\<close>, an integer
  only at the radii of \<open>special_radii\<close>.
\<close>

definition special_radii :: "int list" where
  "special_radii = [0, 256, 512]"

definition radius_checked :: "int \<Rightarrow> bool" where
  "radius_checked r = (\<not> 262144 dvd 40 * (512 - r)\<^sup>2 \<or> r \<in> set special_radii)"

definition radius_agrees :: "int \<Rightarrow> bool" where
  "radius_agrees r = (glow_alpha r = spec_glow_alpha r)"



section \<open>Concrete inputs\<close>

text \<open>
  An idealised rasteriser: the ellipse is the set of pixels inside the ellipse inscribed
  in the bounding box (a circle of radius \<open>r\<close> around the centre when the box is
  \<open>[cx - r, cy - r, cx + r, cy + r]\<close>), and the corners of the rounded rectangle are quarter
  circles; \<open>corner_excess\<close> is the distance by which a coordinate lies beyond the centre of
  the nearest corner circle (zero along the straight edges).
\<close>

fun ellipse_covers :: "int \<times> int \<times> int \<times> int \<Rightarrow> shape" where
  "ellipse_covers (x0, y0, x1, y1) (x, y) =
     (x0 \<le> x \<and> x \<le> x1 \<and> y0 \<le> y \<and> y \<le> y1 \<and>
      (2 * x - x0 - x1)\<^sup>2 * (y1 - y0)\<^sup>2 + (2 * y - y0 - y1)\<^sup>2 * (x1 - x0)\<^sup>2
        \<le> (x1 - x0)\<^sup>2 * (y1 - y0)\<^sup>2)"

definition corner_excess :: "int \<Rightarrow> int \<Rightarrow> int \<Rightarrow> int \<Rightarrow> int" where
  "corner_excess lo hi rad v = max 0 (max (lo + rad - v) (v - (hi - rad)))"

fun rounded_rectangle_covers :: "(int \<times> int) \<times> (int \<times> int) \<Rightarrow> int \<Rightarrow> shape" where
  "rounded_rectangle_covers ((x0, y0), (x1, y1)) rad (x, y) =
     (x0 \<le> x \<and> x \<le> x1 \<and> y0 \<le> y \<and> y \<le> y1 \<and>
      (corner_excess x0 x1 rad x)\<^sup>2 + (corner_excess y0 y1 rad y)\<^sup>2 \<le> rad\<^sup>2)"

definition exact_raster :: raster where
  "exact_raster = \<lparr> ellipse = ellipse_covers, rounded_rectangle = rounded_rectangle_covers \<rparr>"

text \<open>A 2000 by 1000 image whose pixel values are their own index.\<close>

definition wide_image :: "int image" where
  "wide_image = \<lparr> width = 2000, height = 1000, px = (\<lambda>p. 2000 * snd p + fst p) \<rparr>"

text \<open>A 1024 by 1024 RGBA image whose pixels differ from row to row and column to column.\<close>

definition square_image :: "rgba image" where
  "square_image =
     \<lparr> width = 1024, height = 1024,
       px = (\<lambda>p. (fst p mod 256, snd p mod 256, (fst p + snd p) mod 256, 255)) \<rparr>"

text \<open>
  Fonts whose letter is a filled block of \<open>w\<close> by \<open>h\<close> pixels with its corner at the
  drawing position: a large one, as a font file loaded at size 520 gives, and a small
  one, as the built-in font gives.
\<close>

definition block_glyph :: "int \<Rightarrow> int \<Rightarrow> dbl \<times> dbl \<Rightarrow> int \<times> int \<Rightarrow> int" where
  "block_glyph w h xy p =
     (if dtrunc (fst xy) \<le> fst p \<and> fst p < dtrunc (fst xy) + w \<and>
         dtrunc (snd xy) \<le> snd p \<and> snd p < dtrunc (snd xy) + h
      then 255 else 0)"

definition block_font :: "int \<Rightarrow> int \<Rightarrow> font" where
  "block_font w h = \<lparr> textbbox = (0, 0, w, h), glyph_mask = block_glyph w h \<rparr>"

definition large_font :: font where "large_font = block_font 300 400"
definition small_font :: font where "small_font = block_font 6 11"

text \<open>
  Three machines. On the first the first font file of the list exists and loads; on the
  second there is none of the font files; on the third the first font file is missing and
  the second one loads, with the same result as the first machine's.
\<close>

definition georgia_bold :: string where
  "georgia_bold = ''/System/Library/Fonts/Supplemental/Georgia Bold.ttf''"

definition georgia :: string where
  "georgia = ''/System/Library/Fonts/Supplemental/Georgia.ttf''"

definition mac_env :: env where
  "mac_env = \<lparr> path_exists = (\<lambda>fp. fp = georgia_bold),
               truetype = (\<lambda>fp n. if fp = georgia_bold then Inr large_font else Inl OSError),
               load_default = small_font \<rparr>"

definition bare_env :: env where
  "bare_env = \<lparr> path_exists = (\<lambda>fp. False),
                truetype = (\<lambda>fp n. Inl OSError),
                load_default = small_font \<rparr>"

definition other_mac_env :: env where
  "other_mac_env = \<lparr> path_exists = (\<lambda>fp. fp = georgia),
                     truetype = (\<lambda>fp n. if fp = georgia then Inr large_font else Inl OSError),
                     load_default = small_font \<rparr>"


text \<open>
  Two file systems without a usable source image: an empty one, and one whose source file
  is not an image. Every path can be written in both.
\<close>

definition empty_world :: world where
  "empty_world = \<lparr> files = (\<lambda>path. None), writable = (\<lambda>path. True) \<rparr>"

definition garbage_world :: world where
  "garbage_world = \<lparr> files = (\<lambda>path. if path = SOURCE then Some OtherFile else None),
                     writable = (\<lambda>path. True) \<rparr>"

text \<open>A resampler that ignores the image it is given.\<close>

definition blank_resampler :: resampler where
  "blank_resampler sz img = new_image sz (0, 0, 0, 0)"

section \<open>Floats: rounding errors\<close>

lemma bitlen_pos: "0 < n \<Longrightarrow> 0 < bitlen n"
  by (subst bitlen.simps) simp

lemma bitlen_nonpos: "n \<le> 0 \<Longrightarrow> bitlen n = 0"
  by (subst bitlen.simps) simp

lemma bitlen_bounds: "0 < n \<Longrightarrow> 2 ^ (bitlen n - 1) \<le> n \<and> n < 2 ^ bitlen n"
proof (induction n rule: bitlen.induct)
  case (1 n)
  have bl: "bitlen n = Suc (bitlen (n div 2))"
    using "1.prems" by (subst bitlen.simps) simp
  show ?case
  proof (cases "n = 1")
    case True
    then show ?thesis by (simp add: bitlen.simps [of 1] bitlen.simps [of 0])
  next
    case False
    with "1.prems" have h: "0 < n div 2" by simp
    have ih: "2 ^ (bitlen (n div 2) - 1) \<le> n div 2 \<and> n div 2 < 2 ^ bitlen (n div 2)"
      using "1.IH" "1.prems" h by simp
    obtain b where b: "bitlen (n div 2) = Suc b"
      using bitlen_pos [OF h] by (cases "bitlen (n div 2)") auto
    from ih b have "2 ^ b \<le> n div 2" "n div 2 < 2 ^ Suc b" by simp_all
    then have "2 * 2 ^ b \<le> n" "n < 2 * 2 ^ Suc b" by linarith+
    then show ?thesis by (simp add: bl b)
  qed
qed

lemma round_shift_err:
  assumes "0 \<le> a" "0 < k"
  shows "\<bar>round_shift a k * 2 ^ k - a\<bar> \<le> 2 ^ (k - 1)"
proof -
  obtain j where k: "k = Suc j" using assms by (cases k) auto
  define q where "q = a div 2 ^ k"
  define r where "r = a mod 2 ^ k"
  have a: "a = q * 2 ^ k + r" unfolding q_def r_def by (rule div_mult_mod_eq [symmetric])
  have r: "0 \<le> r" "r < 2 ^ k" by (simp_all add: r_def)
  have p: "(2::int) ^ k = 2 * 2 ^ j" by (simp add: k)
  show ?thesis
    unfolding round_shift_def q_def [symmetric] r_def [symmetric]
    using r by (auto simp: a k algebra_simps)
qed

lemma val_pair: "val (m, e) = of_int m * 2 powi e"
  by (simp add: val_def)

lemma rnd53_err: "\<bar>val (rnd53 v) - val v\<bar> \<le> \<bar>val v\<bar> / 2 ^ 53"
proof (cases "bitlen \<bar>fst v\<bar> \<le> 53")
  case True
  then show ?thesis by (simp add: rnd53_def round_to_def)
next
  case False
  define m where "m = fst v"
  define e where "e = snd v"
  define n where "n = bitlen \<bar>m\<bar>"
  define k where "k = n - 53"
  define rs where "rs = round_shift \<bar>m\<bar> k"
  have n: "53 < n" using False by (simp add: n_def m_def)
  then have k: "0 < k" "n = k + 53" by (simp_all add: k_def)
  have mpos: "0 < \<bar>m\<bar>" using n bitlen_nonpos [of "\<bar>m\<bar>"] unfolding n_def by linarith
  have lo: "2 ^ (k + 52) \<le> \<bar>m\<bar>"
    using bitlen_bounds [OF mpos] k by (simp add: n_def [symmetric] add.commute)
  have r: "rnd53 v = (sgn m * rs, e + int k)"
    using False by (simp add: rnd53_def round_to_def m_def e_def n_def k_def rs_def)
  have err: "\<bar>rs * 2 ^ k - \<bar>m\<bar>\<bar> \<le> 2 ^ (k - 1)"
    unfolding rs_def by (rule round_shift_err) (use k in simp_all)
  have v: "val v = of_int (sgn m * \<bar>m\<bar>) * 2 powi e"
    by (simp add: val_def m_def e_def mult_sgn_abs)
  have w: "val (rnd53 v) = of_int (sgn m * (rs * 2 ^ k)) * 2 powi e"
    by (simp add: r val_pair power_int_add)
  have d: "val (rnd53 v) - val v = of_int (sgn m * (rs * 2 ^ k - \<bar>m\<bar>)) * 2 powi e"
    unfolding v w by (simp add: algebra_simps)
  have "\<bar>sgn m\<bar> = 1" using mpos by (simp add: abs_sgn_eq)
  then have sg: "\<bar>real_of_int (sgn m)\<bar> = 1" by (simp flip: of_int_abs)
  have "\<bar>val (rnd53 v) - val v\<bar> = of_int \<bar>rs * 2 ^ k - \<bar>m\<bar>\<bar> * 2 powi e"
    unfolding d by (simp add: abs_mult sg)
  also have "\<dots> \<le> of_int (2 ^ (k - 1)) * 2 powi e"
    using err by (intro mult_right_mono) (simp_all only: of_int_le_iff, simp)
  also have "\<dots> = of_int (2 ^ (k + 52)) / 2 ^ 53 * 2 powi e"
  proof -
    obtain j where "k = Suc j" using k by (cases k) auto
    then show ?thesis by (simp add: power_add)
  qed
  also have "\<dots> \<le> of_int \<bar>m\<bar> / 2 ^ 53 * 2 powi e"
    using lo by (intro mult_right_mono divide_right_mono) (simp_all only: of_int_le_iff, simp_all)
  also have "\<dots> = \<bar>val v\<bar> / 2 ^ 53"
    by (simp add: val_def m_def e_def abs_mult)
  finally show ?thesis .
qed

lemma val_align: "e \<le> snd a \<Longrightarrow> of_int (align a e) * 2 powi e = val a"
proof -
  assume h: "e \<le> snd a"
  have "(2::real) powi snd a = 2 powi (int (nat (snd a - e)) + e)" using h by simp
  also have "\<dots> = 2 powi int (nat (snd a - e)) * 2 powi e"
    by (rule power_int_add) simp
  also have "\<dots> = 2 ^ nat (snd a - e) * 2 powi e"
    by (simp only: power_int_of_nat)
  finally show ?thesis by (simp add: align_def val_def)
qed

lemma dlt_iff: "dlt a b \<longleftrightarrow> val a < val b"
proof -
  define e where "e = min (snd a) (snd b)"
  have p: "(0::real) < 2 powi e" by simp
  have "val a < val b \<longleftrightarrow>
        real_of_int (align a e) * 2 powi e < real_of_int (align b e) * 2 powi e"
    by (simp add: val_align e_def)
  also have "\<dots> \<longleftrightarrow> align a e < align b e"
    using p by (simp only: mult_less_cancel_right_pos of_int_less_iff)
  finally show ?thesis by (simp add: dlt_def e_def)
qed

lemma val_sum: "val (align a (min (snd a) (snd b)) + align b (min (snd a) (snd b)), min (snd a) (snd b))
                 = val a + val b"
  by (simp add: val_pair distrib_right val_align)

lemma dadd_err: "\<bar>val (dadd a b) - (val a + val b)\<bar> \<le> \<bar>val a + val b\<bar> / 2 ^ 53"
  unfolding dadd_def using rnd53_err [of "(align a (min (snd a) (snd b)) + align b (min (snd a) (snd b)), min (snd a) (snd b))"]
  by (simp only: val_sum)

lemma val_neg: "val (- fst b, snd b) = - val b"
  by (simp add: val_def)

lemma dsub_err: "\<bar>val (dsub a b) - (val a - val b)\<bar> \<le> \<bar>val a - val b\<bar> / 2 ^ 53"
  unfolding dsub_def using dadd_err [of a "(- fst b, snd b)"] by (simp add: val_neg)

lemma dmul_err: "\<bar>val (dmul a b) - val a * val b\<bar> \<le> \<bar>val a * val b\<bar> / 2 ^ 53"
proof -
  have "val (fst a * fst b, snd a + snd b) = val a * val b"
    by (simp add: val_def power_int_add)
  then show ?thesis unfolding dmul_def using rnd53_err [of "(fst a * fst b, snd a + snd b)"] by simp
qed

lemma val_dof_int: "\<bar>n\<bar> < 2 ^ 53 \<Longrightarrow> val (dof_int n) = of_int n"
proof -
  assume h: "\<bar>n\<bar> < 2 ^ 53"
  have "bitlen \<bar>n\<bar> \<le> 53"
  proof (cases "n = 0")
    case True then show ?thesis by (simp add: bitlen_nonpos)
  next
    case False
    then have "0 < \<bar>n\<bar>" by simp
    from bitlen_bounds [OF this] h have "(2::int) ^ (bitlen \<bar>n\<bar> - 1) < 2 ^ 53" by linarith
    then have "bitlen \<bar>n\<bar> - 1 < 53" by (simp only: power_strict_increasing_iff)
    then show ?thesis by simp
  qed
  then show ?thesis by (simp add: dof_int_def rnd53_def round_to_def val_def)
qed

lemma dtrunc_val: "dtrunc a = rtrunc (val a)"
proof (cases "0 \<le> snd a")
  case True
  then have "val a = of_int (fst a * 2 ^ nat (snd a))"
    by (simp add: val_def power_int_def)
  then show ?thesis using True by (simp add: dtrunc_def rtrunc_def del: of_int_mult of_int_power)
next
  case False
  define k where "k = nat (- snd a)"
  have e: "snd a = - int k" using False by (simp add: k_def)
  have v: "val a = of_int (fst a) / of_int (2 ^ k)"
    by (simp add: val_def e power_int_minus field_simps)
  have q: "\<lfloor>real_of_int \<bar>fst a\<bar> / real_of_int (2 ^ k)\<rfloor> = \<bar>fst a\<bar> div 2 ^ k"
    by (rule floor_divide_of_int_eq)
  show ?thesis
  proof (cases "0 \<le> fst a")
    case True
    then have "0 \<le> val a" by (simp add: v)
    moreover have "\<lfloor>val a\<rfloor> = fst a div 2 ^ k" using q True by (simp add: v)
    ultimately show ?thesis using True False
      by (cases "fst a = 0") (simp_all add: dtrunc_def rtrunc_def k_def)
  next
    case F: False
    then have "val a < 0" by (simp add: v field_simps)
    moreover have "\<lfloor>- val a\<rfloor> = \<bar>fst a\<bar> div 2 ^ k" using q F by (simp add: v)
    ultimately show ?thesis using F False
      by (simp add: dtrunc_def rtrunc_def k_def)
  qed
qed

lemma sticky_quot_err:
  assumes "0 \<le> n" "0 < d"
  shows "\<bar>real_of_int (sticky_quot n d) - 2 * (real_of_int n / real_of_int d)\<bar> \<le> 1"
proof -
  define q where "q = n div d"
  define r where "r = n mod d"
  have n: "n = q * d + r" unfolding q_def r_def by (rule div_mult_mod_eq [symmetric])
  have r: "0 \<le> r" "r < d" using assms by (simp_all add: r_def)
  have dr: "0 < real_of_int d" using assms by simp
  have Q: "real_of_int n / real_of_int d = real_of_int q + real_of_int r / real_of_int d"
    using dr by (simp add: n field_simps)
  have f: "0 \<le> real_of_int r / real_of_int d" "real_of_int r / real_of_int d < 1"
    using r dr by simp_all
  show ?thesis
  proof (cases "r = 0")
    case True
    then show ?thesis by (simp add: sticky_quot_def Q q_def [symmetric] r_def [symmetric])
  next
    case False
    then have "sticky_quot n d = 2 * q + 1"
      by (simp add: sticky_quot_def q_def r_def)
    then show ?thesis using f by (simp add: Q abs_le_iff)
  qed
qed

lemma ddiv_err:
  assumes "fst b \<noteq> 0"
  shows "\<bar>val (ddiv a b) - val a / val b\<bar> \<le> \<bar>val a / val b\<bar> / 2 ^ 52"
proof (cases "fst a = 0")
  case True
  have "bitlen \<bar>0::int\<bar> \<le> 53" by (simp add: bitlen_nonpos)
  then show ?thesis using True
    by (simp add: ddiv_def sticky_quot_def rnd53_def round_to_def val_def)
next
  case False
  define ma where "ma = fst a"
  define mb where "mb = fst b"
  define L where "L = bitlen \<bar>mb\<bar>"
  define k where "k = L + 55"
  define n where "n = \<bar>ma\<bar> * 2 ^ k"
  define q2 where "q2 = sticky_quot n \<bar>mb\<bar>"
  define e' where "e' = snd a - snd b - int L - 56"
  define W where "W = (sgn ma * sgn mb * q2, e')"
  define P where "P = (2::real) powi e'"
  define Q where "Q = real_of_int n / real_of_int \<bar>mb\<bar>"
  define X where "X = val a / val b"
  define s where "s = real_of_int (sgn ma * sgn mb)"
  have ma: "0 < \<bar>ma\<bar>" and mb: "0 < \<bar>mb\<bar>" using assms False by (simp_all add: ma_def mb_def)
  have s1: "\<bar>s\<bar> = 1"
  proof -
    have "\<bar>sgn ma * sgn mb\<bar> = 1" using ma mb by (simp add: abs_mult abs_sgn_eq)
    then have "real_of_int \<bar>sgn ma * sgn mb\<bar> = 1" by simp
    then show ?thesis unfolding s_def by (simp only: of_int_abs)
  qed
  have P: "0 < P" by (simp add: P_def)
  have dd: "ddiv a b = rnd53 W"
    by (simp add: ddiv_def W_def q2_def n_def k_def L_def e'_def ma_def mb_def)
  have valW: "val W = s * real_of_int q2 * P"
    by (simp add: W_def val_pair s_def P_def)
  have pw: "(2::real) powi (snd a - snd b) = 2 ^ (k + 1) * P"
  proof -
    have "snd a - snd b = int (k + 1) + e'" by (simp add: e'_def k_def)
    then have "(2::real) powi (snd a - snd b) = 2 powi (int (k + 1) + e')" by simp
    also have "\<dots> = 2 powi int (k + 1) * 2 powi e'" by (rule power_int_add) simp
    finally show ?thesis by (simp only: power_int_of_nat P_def)
  qed
  have "val a / val b = (real_of_int ma / real_of_int mb) * 2 powi (snd a - snd b)"
    by (simp add: val_def ma_def mb_def power_int_diff)
  also have "real_of_int ma / real_of_int mb = s * (real_of_int \<bar>ma\<bar> / real_of_int \<bar>mb\<bar>)"
  proof -
    have "real_of_int ma = real_of_int (sgn ma) * real_of_int \<bar>ma\<bar>"
      by (simp only: of_int_mult [symmetric] mult_sgn_abs)
    moreover have "real_of_int mb = real_of_int (sgn mb) * real_of_int \<bar>mb\<bar>"
      by (simp only: of_int_mult [symmetric] mult_sgn_abs)
    moreover have "real_of_int (sgn mb) * real_of_int (sgn mb) = 1"
      using mb by (simp add: sgn_if)
    ultimately show ?thesis using mb
      by (simp add: s_def field_simps sgn_if)
  qed
  finally have X: "X = s * (2 * Q) * P"
    using mb by (simp add: X_def pw Q_def n_def field_simps)
  have se: "\<bar>real_of_int q2 - 2 * Q\<bar> \<le> 1"
    unfolding q2_def Q_def by (rule sticky_quot_err) (use mb in \<open>simp_all add: n_def\<close>)
  have Qlo: "2 ^ 55 \<le> Q"
  proof -
    have "\<bar>mb\<bar> < 2 ^ L" using bitlen_bounds [OF mb] by (simp add: L_def)
    then have "real_of_int \<bar>mb\<bar> < real_of_int (2 ^ L)" by (simp only: of_int_less_iff)
    then have "real_of_int \<bar>mb\<bar> \<le> 2 ^ L" by simp
    then have "2 ^ 55 * real_of_int \<bar>mb\<bar> \<le> 2 ^ 55 * 2 ^ L" by (intro mult_left_mono) simp_all
    also have "\<dots> = 1 * 2 ^ k" by (simp add: k_def power_add)
    also have "\<dots> \<le> real_of_int \<bar>ma\<bar> * 2 ^ k"
      using ma by (intro mult_right_mono) simp_all
    finally have "2 ^ 55 * real_of_int \<bar>mb\<bar> \<le> real_of_int \<bar>ma\<bar> * 2 ^ k" .
    then show ?thesis using mb by (simp add: Q_def n_def field_simps)
  qed
  have absX: "\<bar>X\<bar> = 2 * Q * P" using Qlo P s1 by (simp add: X abs_mult)
  have e1: "\<bar>val W - X\<bar> \<le> P"
  proof -
    have "val W - X = s * (real_of_int q2 - 2 * Q) * P" by (simp add: valW X algebra_simps)
    then have "\<bar>val W - X\<bar> = \<bar>real_of_int q2 - 2 * Q\<bar> * P" using P s1 by (simp add: abs_mult)
    also have "\<dots> \<le> 1 * P" using se P by (intro mult_right_mono) simp_all
    finally show ?thesis by simp
  qed
  have PX: "P \<le> \<bar>X\<bar> / 2 ^ 56"
  proof -
    have "2 ^ 56 * P \<le> 2 * Q * P" using Qlo P by (intro mult_right_mono) simp_all
    then show ?thesis by (simp add: absX field_simps)
  qed
  have e2: "\<bar>val (rnd53 W) - val W\<bar> \<le> \<bar>val W\<bar> / 2 ^ 53" by (rule rnd53_err)
  have e3: "\<bar>val W\<bar> \<le> \<bar>X\<bar> + P" using e1 by linarith
  have tri: "\<bar>val (rnd53 W) - X\<bar> \<le> \<bar>val (rnd53 W) - val W\<bar> + \<bar>val W - X\<bar>" by linarith
  have lin: "A * 2 ^ 53 \<le> C \<Longrightarrow> B \<le> P \<Longrightarrow> P * 2 ^ 56 \<le> D \<Longrightarrow> C \<le> D + P
             \<Longrightarrow> T \<le> A + B \<Longrightarrow> T * 2 ^ 52 \<le> D" for A B C D T :: real
    using P by simp
  have "\<bar>val (rnd53 W) - X\<bar> * 2 ^ 52 \<le> \<bar>X\<bar>"
    using e2 e1 PX e3 tri by (intro lin [of "\<bar>val (rnd53 W) - val W\<bar>" "\<bar>val W\<bar>" "\<bar>val W - X\<bar>"]) (simp_all add: field_simps)
  then have "\<bar>val (rnd53 W) - X\<bar> \<le> \<bar>X\<bar> / 2 ^ 52" by (simp add: field_simps)
  then show ?thesis by (simp add: dd X_def)
qed


section \<open>The gradient\<close>

lemma near_quot:
  fixes x X c C d :: real
  assumes x: "\<bar>x - X\<bar> \<le> d" and c: "\<bar>c - C\<bar> \<le> C / 2 ^ 52"
    and C: "3 / 10 \<le> C" "C \<le> 1" and X: "\<bar>X\<bar> \<le> 1"
  shows "\<bar>x / c - X / C\<bar> \<le> 4 * d + 4 / 2 ^ 52"
proof -
  have d0: "0 \<le> d" using x by linarith
  have cl: "C - C / 2 ^ 52 \<le> c" using c by linarith
  have "C / 2 ^ 52 \<le> C / 8" using C by (intro divide_left_mono) simp_all
  with cl C have c4: "1 / 4 \<le> c" by linarith
  then have cpos: "0 < c" by linarith
  have Cpos: "0 < C" using C by linarith
  have eq: "x / c - X / C = ((x - X) * C + X * (C - c)) / (c * C)"
    using cpos Cpos by (simp add: field_simps)
  have "\<bar>(x - X) * C + X * (C - c)\<bar> \<le> \<bar>(x - X) * C\<bar> + \<bar>X * (C - c)\<bar>"
    by (rule abs_triangle_ineq)
  also have "\<dots> = \<bar>x - X\<bar> * C + \<bar>X\<bar> * \<bar>C - c\<bar>"
    using Cpos by (simp add: abs_mult)
  also have "\<dots> \<le> d * C + 1 * (C / 2 ^ 52)"
    using x c X Cpos d0 by (intro add_mono mult_mono) (simp_all add: abs_minus_commute)
  finally have num: "\<bar>(x - X) * C + X * (C - c)\<bar> \<le> (d + 1 / 2 ^ 52) * C"
    by (simp add: algebra_simps)
  have "\<bar>x / c - X / C\<bar> = \<bar>(x - X) * C + X * (C - c)\<bar> / (c * C)"
    using cpos Cpos by (simp add: eq abs_mult)
  also have "\<dots> \<le> ((d + 1 / 2 ^ 52) * C) / (c * C)"
    using num cpos Cpos by (intro divide_right_mono) simp_all
  also have "\<dots> = (d + 1 / 2 ^ 52) / c" using Cpos by simp
  also have "\<dots> \<le> (d + 1 / 2 ^ 52) / (1 / 4)"
    using c4 d0 by (intro divide_left_mono) simp_all
  finally show ?thesis by simp
qed

lemma val_pos_fst: "0 < val c \<Longrightarrow> fst c \<noteq> 0"
  by (auto simp: val_def)

lemma ddiv_near:
  assumes x: "\<bar>val xh - X\<bar> \<le> d" and c: "\<bar>val ch - C\<bar> \<le> C / 2 ^ 52"
    and C: "3 / 10 \<le> C" "C \<le> 1" and X: "\<bar>X\<bar> \<le> 1" and d: "d \<le> 1"
  shows "\<bar>val (ddiv xh ch) - X / C\<bar> \<le> 4 * d + 16 / 2 ^ 52"
proof -
  have q: "\<bar>val xh / val ch - X / C\<bar> \<le> 4 * d + 4 / 2 ^ 52"
    by (rule near_quot [OF x c C X])
  have "C / 2 ^ 52 \<le> C / 2" using C by (intro divide_left_mono) simp_all
  with c C have "0 < val ch" by linarith
  then have nz: "fst ch \<noteq> 0" by (rule val_pos_fst)
  have XC: "\<bar>X / C\<bar> \<le> 1 / (3 / 10)"
    using X C by (simp only: abs_divide) (intro frac_le, simp_all)
  have gen: "\<bar>A - B\<bar> \<le> e \<Longrightarrow> \<bar>B\<bar> \<le> 10 / 3 \<Longrightarrow> e \<le> 5 \<Longrightarrow> \<bar>A\<bar> \<le> 9" for A B e :: real
    by linarith
  have b: "\<bar>val xh / val ch\<bar> \<le> 9"
    using q XC d by (intro gen [of _ "X / C" "4 * d + 4 / 2 ^ 52"]) simp_all
  have e: "\<bar>val (ddiv xh ch) - val xh / val ch\<bar> \<le> \<bar>val xh / val ch\<bar> / 2 ^ 52"
    by (rule ddiv_err [OF nz])
  have b': "\<bar>val xh / val ch\<bar> / 2 ^ 52 \<le> 9 / 2 ^ 52" using b by (intro divide_right_mono) simp_all
  have gen2: "\<bar>A - Q\<bar> \<le> E \<Longrightarrow> E \<le> 9 / 2 ^ 52 \<Longrightarrow> \<bar>Q - B\<bar> \<le> 4 * d + 4 / 2 ^ 52
              \<Longrightarrow> \<bar>A - B\<bar> \<le> 4 * d + 16 / 2 ^ 52" for A Q B E :: real
    by linarith
  show ?thesis by (rule gen2 [OF e b' q])
qed

lemma val_small: "val (3, 0) = 3" "val (6, 0) = 6" "val (4, 0) = 4" "val (10, 0) = 10"
  by (simp_all add: val_def)

lemma val_lit_0_3: "\<bar>val lit_0_3 - 3 / 10\<bar> \<le> (3 / 10) / 2 ^ 52"
  using ddiv_err [of "(10, 0)" "(3, 0)"] by (simp add: lit_0_3_def val_small)

lemma val_lit_0_6: "\<bar>val lit_0_6 - 6 / 10\<bar> \<le> (6 / 10) / 2 ^ 52"
  using ddiv_err [of "(10, 0)" "(6, 0)"] by (simp add: lit_0_6_def val_small)

lemma val_lit_0_4: "\<bar>val lit_0_4 - 4 / 10\<bar> \<le> (4 / 10) / 2 ^ 52"
  using ddiv_err [of "(10, 0)" "(4, 0)"] by (simp add: lit_0_4_def val_small)

lemma val_row_t:
  assumes "0 \<le> y" "y < 1024"
  shows "\<bar>val (ddiv (dof_int y) (dof_int SIZE)) - of_int y / 1024\<bar> \<le> 1 / 2 ^ 52"
proof -
  have vy: "val (dof_int y) = of_int y" using assms by (intro val_dof_int) simp
  have vs: "val (dof_int SIZE) = 1024" using val_dof_int [of 1024] by (simp add: SIZE_def)
  then have nz: "fst (dof_int SIZE) \<noteq> 0" by (intro val_pos_fst) simp
  have "\<bar>real_of_int y / 1024\<bar> \<le> 1" using assms by simp
  then have "\<bar>real_of_int y / 1024\<bar> / 2 ^ 52 \<le> 1 / 2 ^ 52"
    by (intro divide_right_mono) simp_all
  with ddiv_err [OF nz, of "dof_int y"] show ?thesis by (simp only: vy vs)
qed

lemma branch_real:
  fixes t c Y :: real
  assumes "\<bar>t - Y / 1024\<bar> \<le> 1 / 2 ^ 52" "\<bar>c - C\<bar> \<le> C / 2 ^ 52" "0 \<le> C" "C \<le> 1"
  shows "Y / 1024 \<le> C - 1 / 2 ^ 50 \<Longrightarrow> t < c" and "C + 1 / 2 ^ 50 \<le> Y / 1024 \<Longrightarrow> \<not> t < c"
proof -
  have "C / 2 ^ 52 \<le> 1 / 2 ^ 52" using assms by (intro divide_right_mono) simp_all
  then have c: "\<bar>c - C\<bar> \<le> 1 / 2 ^ 52" using assms by linarith
  have u: "(1::real) / 2 ^ 52 + 1 / 2 ^ 52 < 1 / 2 ^ 50" by simp
  show "Y / 1024 \<le> C - 1 / 2 ^ 50 \<Longrightarrow> t < c" using assms(1) c u by linarith
  show "C + 1 / 2 ^ 50 \<le> Y / 1024 \<Longrightarrow> \<not> t < c" using assms(1) c u by linarith
qed

lemma row_branch1:
  assumes "0 \<le> y" "y < 1024"
  shows "dlt (ddiv (dof_int y) (dof_int SIZE)) lit_0_3 \<longleftrightarrow> y \<le> 307"
proof -
  define t where "t = val (ddiv (dof_int y) (dof_int SIZE))"
  have t: "\<bar>t - of_int y / 1024\<bar> \<le> 1 / 2 ^ 52" unfolding t_def by (rule val_row_t [OF assms])
  note b = branch_real [OF t val_lit_0_3]
  show ?thesis
  proof (cases "y \<le> 307")
    case True
    then have "real_of_int y \<le> real_of_int 307" by (simp only: of_int_le_iff)
    then have "real_of_int y / 1024 \<le> 3 / 10 - 1 / 2 ^ 50" by simp
    then have "t < val lit_0_3" by (intro b) simp_all
    then show ?thesis using True by (simp add: dlt_iff t_def)
  next
    case False
    then have "308 \<le> y" by simp
    then have "real_of_int 308 \<le> real_of_int y" by (simp only: of_int_le_iff)
    then have "3 / 10 + 1 / 2 ^ 50 \<le> real_of_int y / 1024" by simp
    then have "\<not> t < val lit_0_3" by (intro b) simp_all
    then show ?thesis using False by (simp add: dlt_iff t_def)
  qed
qed

lemma row_branch2:
  assumes "0 \<le> y" "y < 1024"
  shows "dlt (ddiv (dof_int y) (dof_int SIZE)) lit_0_6 \<longleftrightarrow> y \<le> 614"
proof -
  define t where "t = val (ddiv (dof_int y) (dof_int SIZE))"
  have t: "\<bar>t - of_int y / 1024\<bar> \<le> 1 / 2 ^ 52" unfolding t_def by (rule val_row_t [OF assms])
  note b = branch_real [OF t val_lit_0_6]
  show ?thesis
  proof (cases "y \<le> 614")
    case True
    then have "real_of_int y \<le> real_of_int 614" by (simp only: of_int_le_iff)
    then have "real_of_int y / 1024 \<le> 6 / 10 - 1 / 2 ^ 50" by simp
    then have "t < val lit_0_6" by (intro b) simp_all
    then show ?thesis using True by (simp add: dlt_iff t_def)
  next
    case False
    then have "615 \<le> y" by simp
    then have "real_of_int 615 \<le> real_of_int y" by (simp only: of_int_le_iff)
    then have "6 / 10 + 1 / 2 ^ 50 \<le> real_of_int y / 1024" by simp
    then have "\<not> t < val lit_0_6" by (intro b) simp_all
    then show ?thesis using False by (simp add: dlt_iff t_def)
  qed
qed

lemma dsub_near:
  fixes T C :: real
  assumes t: "\<bar>val th - T\<bar> \<le> 1 / 2 ^ 52" and c: "\<bar>val ch - C\<bar> \<le> C / 2 ^ 52"
    and C: "0 \<le> C" "C \<le> 1" and T: "0 \<le> T" "T \<le> 1"
  shows "\<bar>val (dsub th ch) - (T - C)\<bar> \<le> 4 / 2 ^ 52"
proof -
  have "C / 2 ^ 52 \<le> 1 / 2 ^ 52" using C by (intro divide_right_mono) simp_all
  then have c': "\<bar>val ch - C\<bar> \<le> 1 / 2 ^ 52" using c by linarith
  have u: "(1::real) / 2 ^ 52 \<le> 1" by simp
  have "\<bar>val th - val ch\<bar> \<le> 4" using t c' C T u by linarith
  then have "\<bar>val th - val ch\<bar> / 2 ^ 53 \<le> 4 / 2 ^ 53" by (intro divide_right_mono) simp_all
  then have e: "\<bar>val (dsub th ch) - (val th - val ch)\<bar> \<le> 2 / 2 ^ 52"
    using dsub_err [of th ch] by simp
  show ?thesis using e t c' by linarith
qed

lemma seg1_factor:
  assumes "0 \<le> y" "y < 1024"
  shows "\<bar>val (ddiv (ddiv (dof_int y) (dof_int SIZE)) lit_0_3) - of_int (10 * y) / 3072\<bar>
          \<le> 1 / 2 ^ 47"
proof -
  have X: "\<bar>real_of_int y / 1024\<bar> \<le> 1" using assms by simp
  have h: "\<bar>val (ddiv (ddiv (dof_int y) (dof_int SIZE)) lit_0_3) - (of_int y / 1024) / (3 / 10)\<bar>
          \<le> 4 * (1 / 2 ^ 52) + 16 / 2 ^ 52"
    by (rule ddiv_near [OF val_row_t [OF assms] val_lit_0_3 _ _ X]) simp_all
  have eq: "(real_of_int y / 1024) / (3 / 10) = of_int (10 * y) / 3072" by simp
  have le: "4 * (1 / 2 ^ 52) + 16 / 2 ^ 52 \<le> (1::real) / 2 ^ 47" by simp
  show ?thesis using order_trans [OF h [unfolded eq] le] .
qed

lemma seg2_factor:
  assumes "0 \<le> y" "y < 1024"
  shows "\<bar>val (ddiv (dsub (ddiv (dof_int y) (dof_int SIZE)) lit_0_3) lit_0_3)
            - of_int (10 * y - 3072) / 3072\<bar> \<le> 1 / 2 ^ 47"
proof -
  have T: "0 \<le> real_of_int y / 1024" "real_of_int y / 1024 \<le> 1" using assms by simp_all
  then have X: "\<bar>real_of_int y / 1024 - 3 / 10\<bar> \<le> 1" by linarith
  have n: "\<bar>val (dsub (ddiv (dof_int y) (dof_int SIZE)) lit_0_3) - (of_int y / 1024 - 3 / 10)\<bar>
            \<le> 4 / 2 ^ 52"
    by (rule dsub_near [OF val_row_t [OF assms] val_lit_0_3 _ _ T]) simp_all
  have h: "\<bar>val (ddiv (dsub (ddiv (dof_int y) (dof_int SIZE)) lit_0_3) lit_0_3)
          - (of_int y / 1024 - 3 / 10) / (3 / 10)\<bar> \<le> 4 * (4 / 2 ^ 52) + 16 / 2 ^ 52"
    by (rule ddiv_near [OF n val_lit_0_3 _ _ X]) simp_all
  have eq: "(real_of_int y / 1024 - 3 / 10) / (3 / 10) = of_int (10 * y - 3072) / 3072"
    by (simp add: field_simps)
  have le: "4 * (4 / 2 ^ 52) + 16 / 2 ^ 52 \<le> (1::real) / 2 ^ 47" by simp
  show ?thesis using order_trans [OF h [unfolded eq] le] .
qed

lemma seg3_factor:
  assumes "0 \<le> y" "y < 1024"
  shows "\<bar>val (ddiv (dsub (ddiv (dof_int y) (dof_int SIZE)) lit_0_6) lit_0_4)
            - of_int (10 * y - 6144) / 4096\<bar> \<le> 1 / 2 ^ 47"
proof -
  have T: "0 \<le> real_of_int y / 1024" "real_of_int y / 1024 \<le> 1" using assms by simp_all
  then have X: "\<bar>real_of_int y / 1024 - 6 / 10\<bar> \<le> 1" by linarith
  have n: "\<bar>val (dsub (ddiv (dof_int y) (dof_int SIZE)) lit_0_6) - (of_int y / 1024 - 6 / 10)\<bar>
            \<le> 4 / 2 ^ 52"
    by (rule dsub_near [OF val_row_t [OF assms] val_lit_0_6 _ _ T]) simp_all
  have h: "\<bar>val (ddiv (dsub (ddiv (dof_int y) (dof_int SIZE)) lit_0_6) lit_0_4)
          - (of_int y / 1024 - 6 / 10) / (4 / 10)\<bar> \<le> 4 * (4 / 2 ^ 52) + 16 / 2 ^ 52"
    by (rule ddiv_near [OF n val_lit_0_4 _ _ X]) simp_all
  have eq: "(real_of_int y / 1024 - 6 / 10) / (4 / 10) = of_int (10 * y - 6144) / 4096"
    by (simp add: field_simps)
  have le: "4 * (4 / 2 ^ 52) + 16 / 2 ^ 52 \<le> (1::real) / 2 ^ 47" by simp
  show ?thesis using order_trans [OF h [unfolded eq] le] .
qed

lemma floor_near:
  fixes s :: real
  assumes D: "0 < D" and nd: "\<not> D dvd N"
    and s: "\<bar>s - of_int N / of_int D\<bar> < 1 / of_int D"
  shows "\<lfloor>s\<rfloor> = N div D"
proof -
  define q where "q = N div D"
  define r where "r = N mod D"
  have N: "N = q * D + r" unfolding q_def r_def by (rule div_mult_mod_eq [symmetric])
  have "r \<noteq> 0" using nd by (simp add: r_def dvd_eq_mod_eq_0)
  moreover have "0 \<le> r" "r < D" using D by (simp_all add: r_def)
  ultimately have r: "1 \<le> r" "r \<le> D - 1" by linarith+
  have Dr: "0 < real_of_int D" using D by simp
  have S: "real_of_int N / real_of_int D = of_int q + of_int r / of_int D"
    using Dr by (simp add: N field_simps)
  have "real_of_int 1 \<le> real_of_int r" "real_of_int r \<le> real_of_int (D - 1)"
    using r by (simp_all only: of_int_le_iff)
  then have lo: "1 / real_of_int D \<le> of_int r / of_int D"
    and hi: "of_int r / of_int D \<le> 1 - 1 / real_of_int D"
    using Dr by (simp_all add: field_simps)
  have "of_int q \<le> s" "s < of_int q + 1" using s lo hi unfolding S by linarith+
  then show ?thesis unfolding q_def [symmetric] by (rule floor_unique)
qed

lemma lerp_channel_exact:
  assumes fh: "\<bar>val fh - of_int K / of_int D\<bar> \<le> 1 / 2 ^ 47"
    and D: "0 < D" "D \<le> 4096" and K: "0 \<le> K" "K \<le> D"
    and a: "0 < a" "a \<le> 255" and b: "0 < b" "b \<le> 255"
    and nd: "\<not> D dvd (b - a) * K"
  shows "lerp_channel a b fh = rtrunc (of_int a + of_int (b - a) * (of_int K / of_int D))"
proof -
  define F where "F = real_of_int K / real_of_int D"
  define f where "f = val fh"
  define d where "d = real_of_int (b - a)"
  define p where "p = val (dmul (dof_int (b - a)) fh)"
  define sh where "sh = val (dadd (dof_int a) (dmul (dof_int (b - a)) fh))"
  define S where "S = real_of_int a + d * F"
  define N where "N = a * D + (b - a) * K"
  have Dr: "0 < real_of_int D" using D by simp
  have F: "0 \<le> F" "F \<le> 1" using D K by (simp_all add: F_def)
  have fF: "\<bar>f - F\<bar> \<le> 1 / 2 ^ 47" using fh by (simp add: f_def F_def)
  have u: "(1::real) / 2 ^ 47 \<le> 1" by simp
  have f2: "\<bar>f\<bar> \<le> 2" using fF F u by linarith
  have "\<bar>b - a\<bar> \<le> 254" using a b by linarith
  then have "real_of_int \<bar>b - a\<bar> \<le> real_of_int 254" by (simp only: of_int_le_iff)
  then have d: "\<bar>d\<bar> \<le> 254" by (simp add: d_def)
  have vd: "val (dof_int (b - a)) = d" unfolding d_def using a b by (intro val_dof_int) simp
  have va: "val (dof_int a) = of_int a" using a by (intro val_dof_int) simp
  have ar: "0 < real_of_int a" "real_of_int a \<le> 255" "0 < real_of_int b" "real_of_int b \<le> 255"
    using a b by simp_all
  have df: "\<bar>d * f\<bar> \<le> 254 * 2" unfolding abs_mult using d f2 by (intro mult_mono) simp_all
  have "\<bar>p - d * f\<bar> \<le> \<bar>d * f\<bar> / 2 ^ 53"
    using dmul_err [of "dof_int (b - a)" fh] by (simp add: p_def vd f_def)
  also have "\<dots> \<le> (254 * 2) / 2 ^ 53" using df by (intro divide_right_mono) simp_all
  finally have e1: "\<bar>p - d * f\<bar> \<le> 508 / 2 ^ 53" by simp
  have "\<bar>d * f - d * F\<bar> = \<bar>d\<bar> * \<bar>f - F\<bar>" by (simp add: abs_mult right_diff_distrib [symmetric])
  also have "\<dots> \<le> 254 * (1 / 2 ^ 47)" using d fF by (intro mult_mono) simp_all
  finally have e2: "\<bar>d * f - d * F\<bar> \<le> 254 / 2 ^ 47" by simp
  have dF: "\<bar>d * F\<bar> \<le> 254 * 1" unfolding abs_mult using d F by (intro mult_mono) simp_all
  have c1: "(254::real) / 2 ^ 47 + 508 / 2 ^ 53 \<le> 1 / 2 ^ 38" by simp
  have e3: "\<bar>p - d * F\<bar> \<le> 1 / 2 ^ 38" using e1 e2 c1 by linarith
  have c2: "(1::real) / 2 ^ 38 \<le> 1" by simp
  have ap: "\<bar>real_of_int a + p\<bar> \<le> 510" using e3 dF ar c2 by linarith
  have "\<bar>sh - (real_of_int a + p)\<bar> \<le> \<bar>real_of_int a + p\<bar> / 2 ^ 53"
    using dadd_err [of "dof_int a" "dmul (dof_int (b - a)) fh"] by (simp add: sh_def va p_def)
  also have "\<dots> \<le> 510 / 2 ^ 53" using ap by (intro divide_right_mono) simp_all
  finally have e4: "\<bar>sh - (real_of_int a + p)\<bar> \<le> 510 / 2 ^ 53" .
  have c3: "(1::real) / 2 ^ 38 + 510 / 2 ^ 53 \<le> 1 / 2 ^ 37" by simp
  have e5: "\<bar>sh - S\<bar> \<le> 1 / 2 ^ 37" unfolding S_def using e3 e4 c3 by linarith
  have SN: "S = real_of_int N / real_of_int D"
    using Dr by (simp add: S_def N_def d_def F_def field_simps)
  have ndN: "\<not> D dvd N"
  proof
    assume "D dvd N"
    moreover have "D dvd a * D" by simp
    ultimately have "D dvd N - a * D" by (rule dvd_diff)
    then show False using nd by (simp add: N_def)
  qed
  have "real_of_int D \<le> real_of_int 4096" using D by (simp only: of_int_le_iff)
  then have "1 / 4096 \<le> 1 / real_of_int D" using Dr by (simp add: field_simps)
  moreover have "(1::real) / 2 ^ 37 < 1 / 4096" by simp
  ultimately have lt: "\<bar>sh - real_of_int N / real_of_int D\<bar> < 1 / real_of_int D"
    using e5 unfolding SN by linarith
  have fl1: "\<lfloor>sh\<rfloor> = N div D" by (rule floor_near [OF D(1) ndN lt])
  have fl2: "\<lfloor>S\<rfloor> = N div D" unfolding SN by (rule floor_divide_of_int_eq)
  have S1: "1 \<le> S"
  proof (cases "0 \<le> d")
    case True
    then have "0 \<le> d * F" using F by simp
    then show ?thesis unfolding S_def using a by linarith
  next
    case False
    then have "d * 1 \<le> d * F" using F by (intro mult_left_mono_neg) simp_all
    moreover have "real_of_int a + d = real_of_int b" by (simp add: d_def)
    moreover have "1 \<le> real_of_int b" using b by linarith
    ultimately show ?thesis unfolding S_def by linarith
  qed
  have c4: "(1::real) / 2 ^ 37 < 1" by simp
  have sh0: "0 \<le> sh" using e5 S1 c4 by linarith
  have "lerp_channel a b fh = rtrunc sh"
    by (simp add: lerp_channel_def dtrunc_val sh_def)
  also have "\<dots> = \<lfloor>S\<rfloor>" using sh0 by (simp add: rtrunc_def fl1 fl2)
  also have "\<dots> = rtrunc S" using S1 by (simp add: rtrunc_def)
  finally show ?thesis by (simp add: S_def d_def F_def)
qed

lemma lerp_color_exact:
  assumes fh: "\<bar>val fh - of_int K / of_int D\<bar> \<le> 1 / 2 ^ 47"
    and D: "0 < D" "D \<le> 4096" and K: "0 \<le> K" "K \<le> D"
    and c: "channels_in_range c1" "channels_in_range c2"
    and nd: "nonint D K c1 c2"
  shows "lerp_color c1 c2 fh = interpolate c1 c2 (of_int K / of_int D)"
proof -
  obtain r1 g1 b1 where c1: "c1 = (r1, g1, b1)" by (cases c1) auto
  obtain r2 g2 b2 where c2: "c2 = (r2, g2, b2)" by (cases c2) auto
  show ?thesis
    using c nd unfolding c1 c2
    by (simp add: lerp_channel_exact [OF fh D K])
qed

lemma colors_in_range:
  "channels_in_range color_top" "channels_in_range color_mid1"
  "channels_in_range color_mid2" "channels_in_range color_bottom"
  by (simp_all add: color_top_def color_mid1_def color_mid2_def color_bottom_def)

lemma row_generic:
  assumes y: "0 \<le> y" "y < 1024" and g: "generic_row y"
  shows "row_color y = spec_row_color y"
proof -
  define t where "t = ddiv (dof_int y) (dof_int SIZE)"
  have T: "real_of_int y / real_of_int SIZE = real_of_int y / 1024" by (simp add: SIZE_def)
  consider "y \<le> 307" | "307 < y" "y \<le> 614" | "614 < y" by linarith
  then show ?thesis
  proof cases
    case 1
    then have "real_of_int y \<le> real_of_int 307" by (simp only: of_int_le_iff)
    then have s: "real_of_int y / 1024 < 3 / 10" by simp
    have e: "real_of_int y / 1024 / (3 / 10) = real_of_int (10 * y) / real_of_int 3072" by simp
    have n: "nonint 3072 (10 * y) color_top color_mid1" using g 1 by (simp add: generic_row_def)
    have "lerp_color color_top color_mid1 (ddiv t lit_0_3)
          = interpolate color_top color_mid1 (real_of_int (10 * y) / real_of_int 3072)"
      unfolding t_def
      by (rule lerp_color_exact [OF _ _ _ _ _ colors_in_range(1) colors_in_range(2) n])
         (use y 1 seg1_factor [OF y] in simp_all)
    moreover have "row_color y = lerp_color color_top color_mid1 (ddiv t lit_0_3)"
      using 1 by (simp add: row_color_def gradient_at_def row_branch1 [OF y] t_def)
    moreover have "spec_row_color y
          = interpolate color_top color_mid1 (real_of_int (10 * y) / real_of_int 3072)"
      unfolding spec_row_color_def spec_gradient_at_def T using s by (simp only: if_True e)
    ultimately show ?thesis by simp
  next
    case 2
    then have "real_of_int 308 \<le> real_of_int y" "real_of_int y \<le> real_of_int 614"
      by (simp_all only: of_int_le_iff)
    then have s: "\<not> real_of_int y / 1024 < 3 / 10" "real_of_int y / 1024 < 6 / 10" by simp_all
    have e: "(real_of_int y / 1024 - 3 / 10) / (3 / 10) = real_of_int (10 * y - 3072) / real_of_int 3072"
      by (simp add: field_simps)
    have n: "nonint 3072 (10 * y - 3072) color_mid1 color_mid2" using g 2 by (simp add: generic_row_def)
    have "lerp_color color_mid1 color_mid2 (ddiv (dsub t lit_0_3) lit_0_3)
          = interpolate color_mid1 color_mid2 (real_of_int (10 * y - 3072) / real_of_int 3072)"
      unfolding t_def
      by (rule lerp_color_exact [OF _ _ _ _ _ colors_in_range(2) colors_in_range(3) n])
         (use y 2 seg2_factor [OF y] in simp_all)
    moreover have "row_color y = lerp_color color_mid1 color_mid2 (ddiv (dsub t lit_0_3) lit_0_3)"
      using 2 by (simp add: row_color_def gradient_at_def row_branch1 [OF y] row_branch2 [OF y] t_def)
    moreover have "spec_row_color y
          = interpolate color_mid1 color_mid2 (real_of_int (10 * y - 3072) / real_of_int 3072)"
      unfolding spec_row_color_def spec_gradient_at_def T using s by (simp only: if_True if_False e)
    ultimately show ?thesis by simp
  next
    case 3
    then have "real_of_int 615 \<le> real_of_int y" by (simp only: of_int_le_iff)
    then have s: "\<not> real_of_int y / 1024 < 3 / 10" "\<not> real_of_int y / 1024 < 6 / 10" by simp_all
    have e: "(real_of_int y / 1024 - 6 / 10) / (4 / 10) = real_of_int (10 * y - 6144) / real_of_int 4096"
      by (simp add: field_simps)
    have n: "nonint 4096 (10 * y - 6144) color_mid2 color_bottom" using g 3 by (simp add: generic_row_def)
    have "lerp_color color_mid2 color_bottom (ddiv (dsub t lit_0_6) lit_0_4)
          = interpolate color_mid2 color_bottom (real_of_int (10 * y - 6144) / real_of_int 4096)"
      unfolding t_def
      by (rule lerp_color_exact [OF _ _ _ _ _ colors_in_range(3) colors_in_range(4) n])
         (use y 3 seg3_factor [OF y] in simp_all)
    moreover have "row_color y = lerp_color color_mid2 color_bottom (ddiv (dsub t lit_0_6) lit_0_4)"
      using 3 by (simp add: row_color_def gradient_at_def row_branch1 [OF y] row_branch2 [OF y] t_def)
    moreover have "spec_row_color y
          = interpolate color_mid2 color_bottom (real_of_int (10 * y - 6144) / real_of_int 4096)"
      unfolding spec_row_color_def spec_gradient_at_def T using s by (simp only: if_False e)
    ultimately show ?thesis by simp
  qed
qed

lemmas fl_eval = row_agrees_def row_color_def gradient_at_def lerp_channel_def lit_0_3_def lit_0_6_def
  lit_0_4_def color_top_def color_mid1_def color_mid2_def color_bottom_def dtrunc_def dlt_def
  ddiv_def dsub_def dadd_def dmul_def dof_int_def rnd53_def round_to_def SIZE_def bitlen.simps
  round_shift_def align_def sticky_quot_def spec_row_color_def spec_gradient_at_def rtrunc_def

lemma row_0: "row_agrees 0" by (simp add: fl_eval)
lemma row_96: "row_agrees 96" by (simp add: fl_eval)
lemma row_192: "row_agrees 192" by (simp add: fl_eval)
lemma row_288: "row_agrees 288" by (simp add: fl_eval)
lemma row_384: "row_agrees 384" by (simp add: fl_eval)
lemma row_512: "row_agrees 512" by (simp add: fl_eval)

lemma rows_checked_a: "list_all row_checked [0..255]"
  by (simp add: upto.simps row_checked_def generic_row_def special_rows_def
      color_top_def color_mid1_def color_mid2_def color_bottom_def)

lemma rows_checked_b: "list_all row_checked [256..511]"
  by (simp add: upto.simps row_checked_def generic_row_def special_rows_def
      color_top_def color_mid1_def color_mid2_def color_bottom_def)

lemma rows_checked_c: "list_all row_checked [512..767]"
  by (simp add: upto.simps row_checked_def generic_row_def special_rows_def
      color_top_def color_mid1_def color_mid2_def color_bottom_def)

lemma rows_checked_d: "list_all row_checked [768..1023]"
  by (simp add: upto.simps row_checked_def generic_row_def special_rows_def
      color_top_def color_mid1_def color_mid2_def color_bottom_def)

lemma row_checked_all:
  assumes "0 \<le> y" "y < 1024"
  shows "row_checked y"
proof -
  have "y \<in> set [0..255] \<or> y \<in> set [256..511] \<or> y \<in> set [512..767] \<or> y \<in> set [768..1023]"
    using assms by (simp only: set_upto) auto
  then show ?thesis
    using rows_checked_a rows_checked_b rows_checked_c rows_checked_d
    unfolding list_all_iff by blast
qed

lemma row_color_exact:
  assumes "0 \<le> y" "y < 1024"
  shows "row_color y = spec_row_color y"
proof (cases "generic_row y")
  case True
  then show ?thesis by (rule row_generic [OF assms])
next
  case False
  then have "y \<in> set special_rows" using row_checked_all [OF assms] by (simp add: row_checked_def)
  then have "row_agrees y"
    using row_0 row_96 row_192 row_288 row_384 row_512 by (auto simp: special_rows_def)
  then show ?thesis by (simp add: row_agrees_def)
qed

section \<open>The glow alpha\<close>

lemma glow_alpha_near:
  assumes "0 \<le> r" "r \<le> 512"
  shows "\<bar>val (dmul (dof_int 40) (dsq (dsub (dof_int 1) (ddiv (dof_int r) (dof_int max_radius)))))
          - 40 * (1 - real_of_int r / 512)\<^sup>2\<bar> \<le> 1 / 2 ^ 43"
proof -
  define q where "q = val (ddiv (dof_int r) (dof_int max_radius))"
  define x where "x = val (dsub (dof_int 1) (ddiv (dof_int r) (dof_int max_radius)))"
  define s where "s = val (dsq (dsub (dof_int 1) (ddiv (dof_int r) (dof_int max_radius))))"
  define a where
    "a = val (dmul (dof_int 40) (dsq (dsub (dof_int 1) (ddiv (dof_int r) (dof_int max_radius)))))"
  define Q where "Q = real_of_int r / 512"
  define X where "X = 1 - Q"
  have Q: "0 \<le> Q" "Q \<le> 1" using assms by (simp_all add: Q_def)
  have X: "0 \<le> X" "X \<le> 1" using Q by (simp_all add: X_def)
  have vr: "val (dof_int r) = of_int r" using assms by (intro val_dof_int) simp
  have vm: "val (dof_int max_radius) = 512"
    using val_dof_int [of 512] by (simp add: max_radius_def SIZE_def)
  then have nz: "fst (dof_int max_radius) \<noteq> 0" by (intro val_pos_fst) simp
  have v1: "val (dof_int 1) = 1" using val_dof_int [of 1] by simp
  have v40: "val (dof_int 40) = 40" using val_dof_int [of 40] by simp
  have "\<bar>Q\<bar> / 2 ^ 52 \<le> 1 / 2 ^ 52" using Q by (intro divide_right_mono) simp_all
  with ddiv_err [OF nz, of "dof_int r"] have eq: "\<bar>q - Q\<bar> \<le> 1 / 2 ^ 52"
    by (simp only: vr vm q_def Q_def)
  have u: "(1::real) / 2 ^ 52 \<le> 1" by simp
  have "\<bar>1 - q\<bar> \<le> 2" using eq Q u by linarith
  then have "\<bar>1 - q\<bar> / 2 ^ 53 \<le> 2 / 2 ^ 53" by (intro divide_right_mono) simp_all
  with dsub_err [of "dof_int 1" "ddiv (dof_int r) (dof_int max_radius)"]
  have "\<bar>x - (1 - q)\<bar> \<le> 1 / 2 ^ 52" by (simp add: v1 x_def q_def)
  with eq have ex: "\<bar>x - X\<bar> \<le> 2 / 2 ^ 52" unfolding X_def by linarith
  have u2: "(2::real) / 2 ^ 52 \<le> 1 / 4" by simp
  have xb: "\<bar>x\<bar> \<le> 5 / 4" using ex X u2 by linarith
  have xx: "\<bar>x * x\<bar> \<le> (5 / 4) * (5 / 4)" unfolding abs_mult using xb by (intro mult_mono) simp_all
  then have "\<bar>x * x\<bar> / 2 ^ 53 \<le> 2 / 2 ^ 53" by (intro divide_right_mono) simp_all
  with dmul_err [of "dsub (dof_int 1) (ddiv (dof_int r) (dof_int max_radius))"
                    "dsub (dof_int 1) (ddiv (dof_int r) (dof_int max_radius))"]
  have e1: "\<bar>s - x * x\<bar> \<le> 1 / 2 ^ 52" by (simp add: s_def x_def dsq_def)
  have "x * x - X * X = (x - X) * (x + X)" by (simp add: algebra_simps)
  then have "\<bar>x * x - X * X\<bar> = \<bar>x - X\<bar> * \<bar>x + X\<bar>" by (simp add: abs_mult)
  also have "\<dots> \<le> (2 / 2 ^ 52) * 3"
  proof -
    have "\<bar>x + X\<bar> \<le> 3" using xb X by linarith
    then show ?thesis using ex by (intro mult_mono) simp_all
  qed
  finally have e2: "\<bar>x * x - X * X\<bar> \<le> 6 / 2 ^ 52" by simp
  have es: "\<bar>s - X * X\<bar> \<le> 7 / 2 ^ 52" using e1 e2 by linarith
  have XX: "0 \<le> X * X" "X * X \<le> 1" using X by (simp_all add: mult_le_one)
  have u7: "(7::real) / 2 ^ 52 \<le> 1" by simp
  have sb: "\<bar>s\<bar> \<le> 2" using es XX u7 by linarith
  then have "\<bar>40 * s\<bar> / 2 ^ 53 \<le> 80 / 2 ^ 53" by (intro divide_right_mono) simp_all
  with dmul_err [of "dof_int 40" "dsq (dsub (dof_int 1) (ddiv (dof_int r) (dof_int max_radius)))"]
  have e3: "\<bar>a - 40 * s\<bar> \<le> 40 / 2 ^ 52" by (simp add: a_def s_def v40)
  have u320: "(40::real) / 2 ^ 52 + 40 * (7 / 2 ^ 52) \<le> 1 / 2 ^ 43" by simp
  have "\<bar>a - 40 * (X * X)\<bar> \<le> 1 / 2 ^ 43" using e3 es u320 by linarith
  then show ?thesis by (simp add: a_def X_def Q_def power2_eq_square)
qed

lemma spec_glow_alpha_div:
  "spec_glow_alpha r = (40 * (512 - r)\<^sup>2) div 262144"
proof -
  have "40 * (1 - real_of_int r / 512)\<^sup>2 = real_of_int (40 * (512 - r)\<^sup>2) / real_of_int 262144"
    by (simp add: power2_eq_square field_simps)
  moreover have "real_of_int max_radius = 512" by (simp add: max_radius_def SIZE_def)
  ultimately have "spec_glow_alpha r
      = \<lfloor>real_of_int (40 * (512 - r)\<^sup>2) / real_of_int 262144\<rfloor>"
    by (simp only: spec_glow_alpha_def)
  then show ?thesis by (simp only: floor_divide_of_int_eq)
qed

lemma glow_alpha_generic:
  assumes "0 \<le> r" "r \<le> 512" and nd: "\<not> 262144 dvd 40 * (512 - r)\<^sup>2"
  shows "glow_alpha r = spec_glow_alpha r"
proof -
  define a where
    "a = val (dmul (dof_int 40) (dsq (dsub (dof_int 1) (ddiv (dof_int r) (dof_int max_radius)))))"
  define N where "N = 40 * (512 - r)\<^sup>2"
  have E: "40 * (1 - real_of_int r / 512)\<^sup>2 = real_of_int N / real_of_int 262144"
    by (simp add: N_def power2_eq_square field_simps)
  have "\<bar>a - real_of_int N / real_of_int 262144\<bar> \<le> 1 / 2 ^ 43"
    using glow_alpha_near [OF assms(1,2)] unfolding a_def E .
  moreover have "(1::real) / 2 ^ 43 < 1 / real_of_int 262144" by simp
  ultimately have lt: "\<bar>a - real_of_int N / real_of_int 262144\<bar> < 1 / real_of_int 262144"
    by linarith
  have fl: "\<lfloor>a\<rfloor> = N div 262144"
    by (rule floor_near [OF _ _ lt]) (use nd in \<open>simp_all add: N_def\<close>)
  have "0 \<le> N" by (simp add: N_def)
  then have "0 \<le> N div 262144" by (simp add: pos_imp_zdiv_nonneg_iff)
  then have "0 \<le> \<lfloor>a\<rfloor>" by (simp only: fl)
  then have a0: "0 \<le> a" by (simp only: zero_le_floor)
  have "glow_alpha r = rtrunc a" by (simp add: glow_alpha_def dtrunc_val a_def)
  also have "\<dots> = N div 262144" using a0 by (simp add: rtrunc_def fl)
  finally show ?thesis by (simp add: spec_glow_alpha_div N_def)
qed

lemmas glow_eval = radius_agrees_def glow_alpha_def dsq_def dtrunc_def ddiv_def dsub_def dadd_def
  dmul_def dof_int_def rnd53_def round_to_def bitlen.simps round_shift_def align_def
  sticky_quot_def max_radius_def SIZE_def spec_glow_alpha_div

lemma radius_0: "radius_agrees 0" by (simp add: glow_eval)
lemma radius_256: "radius_agrees 256" by (simp add: glow_eval)
lemma radius_512: "radius_agrees 512" by (simp add: glow_eval)

lemma radii_checked_a: "list_all radius_checked [0..255]"
  by (simp add: upto.simps radius_checked_def special_radii_def)

lemma radii_checked_b: "list_all radius_checked [256..512]"
  by (simp add: upto.simps radius_checked_def special_radii_def)

lemma glow_alpha_exact:
  assumes "0 \<le> r" "r \<le> 512"
  shows "glow_alpha r = spec_glow_alpha r"
proof -
  have "r \<in> set [0..255] \<or> r \<in> set [256..512]" using assms by (simp only: set_upto) auto
  then have c: "radius_checked r"
    using radii_checked_a radii_checked_b unfolding list_all_iff by blast
  show ?thesis
  proof (cases "262144 dvd 40 * (512 - r)\<^sup>2")
    case False
    then show ?thesis by (rule glow_alpha_generic [OF assms])
  next
    case True
    then have "r \<in> set special_radii" using c by (simp add: radius_checked_def)
    then have "radius_agrees r"
      using radius_0 radius_256 radius_512 by (auto simp: special_radii_def)
    then show ?thesis by (simp add: radius_agrees_def)
  qed
qed




section \<open>The glow layer\<close>

lemma py_range_down_by_two:
  "py_range (2 * int n) 0 (- 2) = map (\<lambda>k. 2 * int n - 2 * int k) [0..<n]"
proof (induction n)
  case 0
  show ?case by (simp add: py_range.simps [of 0])
next
  case (Suc n)
  have "py_range (2 * int (Suc n)) 0 (- 2) = 2 * int (Suc n) # py_range (2 * int n) 0 (- 2)"
    by (subst py_range.simps) (simp add: algebra_simps)
  also have "\<dots> = 2 * int (Suc n) # map (\<lambda>k. 2 * int n - 2 * int k) [0..<n]"
    by (simp only: Suc.IH)
  also have "\<dots> = map (\<lambda>k. 2 * int (Suc n) - 2 * int k) [0..<Suc n]"
    by (simp add: upt_conv_Cons map_Suc_upt [symmetric] del: upt_Suc)
  finally show ?case .
qed

lemma glow_radii_eq: "glow_radii = map (\<lambda>k. 512 - 2 * int k) [0..<256]"
  using py_range_down_by_two [of 256] by (simp add: glow_radii_def max_radius_def SIZE_def)

lemma set_glow_radii: "set glow_radii = {r. even r \<and> 2 \<le> r \<and> r \<le> 512}"
proof (rule set_eqI)
  fix r :: int
  show "r \<in> set glow_radii \<longleftrightarrow> r \<in> {r. even r \<and> 2 \<le> r \<and> r \<le> 512}"
  proof
    assume "r \<in> set glow_radii"
    then obtain k where "k < 256" "r = 512 - 2 * int k" by (auto simp: glow_radii_eq)
    then show "r \<in> {r. even r \<and> 2 \<le> r \<and> r \<le> 512}" by simp
  next
    assume "r \<in> {r. even r \<and> 2 \<le> r \<and> r \<le> 512}"
    then have e: "even r" and b: "2 \<le> r" "r \<le> 512" by simp_all
    from e obtain j where j: "r = 2 * j" by (auto elim: evenE)
    define k where "k = nat (256 - j)"
    have "k < 256" "r = 512 - 2 * int k" using b j by (simp_all add: k_def)
    then show "r \<in> set glow_radii" by (auto simp: glow_radii_eq)
  qed
qed

lemma glow_radii_bounds: "r \<in> set glow_radii \<Longrightarrow> 0 \<le> r \<and> r \<le> 512"
  by (simp add: set_glow_radii)

lemma glow_radii_snoc: "glow_radii = map (\<lambda>k. 512 - 2 * int k) [0..<255] @ [2]"
proof -
  have "[0..<256] = [0..<255] @ [255]" using upt_Suc_append [of 0 255] by simp
  then show ?thesis by (simp add: glow_radii_eq)
qed



















section \<open>Facts about the image operations\<close>

lemma getpixel_inside:
  "in_image img p \<Longrightarrow> getpixel img p = Inr (px img p)"
  by (simp add: getpixel_def wrap_xy_def wrap_index_def in_image_def)

lemma getpixel_cong:
  assumes "size_of a = size_of b" and "\<And>p. in_image a p \<Longrightarrow> px a p = px b p"
  shows "getpixel a p = getpixel b p"
proof -
  have w: "wrap_xy a p = wrap_xy b p" using assms(1) by (simp add: wrap_xy_def size_of_def)
  have i: "in_image a q = in_image b q" for q using assms(1) by (simp add: in_image_def size_of_def)
  show ?thesis using assms(2) [of "wrap_xy b p"] by (simp add: getpixel_def w i)
qed

lemma alpha_putalpha: "alpha_of (px (putalpha img m) p) = px m p"
  by (cases "px img p") (simp add: putalpha_def)

lemma size_putalpha: "size_of (putalpha img m) = size_of img"
  by (simp add: putalpha_def size_of_def)

lemma blend8_full:
  "blend8 255 u 255 = 255" "blend8 255 u 245 = 245" "blend8 255 u 35 = 35" "blend8 255 u 0 = 0"
  by (simp_all add: blend8_def div255_def shift_div255_def)

lemma fill_pixel_full_letter: "fill_pixel 255 c (255, 255, 255, 245) = (255, 255, 255, 245)"
  by (cases c) (simp add: channel_mask_def blend8_full)

lemma fill_pixel_full_shadow: "fill_pixel 255 c (0, 0, 0, 35) = (0, 0, 0, 35)"
  by (cases c) (simp add: channel_mask_def blend8_full)

lemma fill_pixel_none: "fill_pixel 0 c ink = c"
  by (cases c; cases ink) simp

text \<open>The gradient canvas after the loop over the rows.\<close>

lemma px_fold_draw_row:
  "px (fold draw_row ys img) (x, y) =
     (if y \<in> set ys \<and> 0 \<le> x \<and> x \<le> SIZE - 1 then with_alpha (row_color y) 255
      else px img (x, y))"
  by (induction ys arbitrary: img) (auto simp: draw_row_def draw_shape_def hline_covers_def)

lemma size_fold_draw_row:
  "width (fold draw_row ys img) = width img \<and> height (fold draw_row ys img) = height img"
  by (induction ys arbitrary: img) (auto simp: draw_row_def draw_shape_def)

lemma size_gradient_canvas: "width gradient_canvas = SIZE" "height gradient_canvas = SIZE"
  by (simp_all add: gradient_canvas_def size_fold_draw_row new_image_def)

lemma px_gradient_canvas:
  assumes "0 \<le> y" "y < SIZE" "0 \<le> x" "x < SIZE"
  shows "px gradient_canvas (x, y) = with_alpha (row_color y) 255"
  using assms by (simp add: gradient_canvas_def px_fold_draw_row)
section \<open>Facts about the icon\<close>

lemma px_mask:
  "px (mask ras) p =
     (if rounded_rectangle ras ((0, 0), (SIZE - 1, SIZE - 1)) corner_radius p then 255 else 0)"
  by (simp add: mask_def draw_shape_def new_image_def)

lemma size_draw_text: "size_of (draw_text f xy ink img) = size_of img"
  by (simp add: draw_text_def size_of_def)

lemma size_alpha_composite: "size_of (alpha_composite a b) = size_of a"
  by (simp add: alpha_composite_def size_of_def)

lemma size_create_icon: "size_of (create_icon ras e) = (SIZE, SIZE)"
proof -
  have "size_of (create_icon ras e) = size_of gradient_canvas"
    by (simp add: create_icon_def with_letter_def with_shadow_def masked_glow_def
        glow_composite_def masked_gradient_def size_putalpha size_draw_text size_alpha_composite)
  then show ?thesis by (simp add: size_of_def size_gradient_canvas)
qed

lemma px_draw_text:
  "px (draw_text f xy ink img) p = fill_pixel (glyph_mask f xy p) (px img p) ink"
  by (simp add: draw_text_def)

lemma px_putalpha: "px (putalpha img m) p = set_alpha (px img p) (px m p)"
  by (simp add: putalpha_def)

text \<open>The positions of the letter and of its shadow for the two block fonts.\<close>

lemmas pos_eval = text_x.simps text_y.simps dtrunc_def ddiv_def dsub_def dadd_def dof_int_def
  rnd53_def round_to_def bitlen.simps round_shift_def align_def sticky_quot_def SIZE_def
  shadow_offset_def

lemma large_letter_pos:
  "dtrunc (text_x (0, 0, 300, 400)) = 362" "dtrunc (text_y (0, 0, 300, 400)) = 302"
  by (simp_all add: pos_eval)

lemma large_shadow_pos:
  "dtrunc (dadd (text_x (0, 0, 300, 400)) (dof_int shadow_offset)) = 368"
  "dtrunc (dadd (text_y (0, 0, 300, 400)) (dof_int shadow_offset)) = 308"
  by (simp_all add: pos_eval)

lemma small_letter_pos:
  "dtrunc (text_x (0, 0, 6, 11)) = 509" "dtrunc (text_y (0, 0, 6, 11)) = 496"
  by (simp_all add: pos_eval)

lemma small_shadow_pos:
  "dtrunc (dadd (text_x (0, 0, 6, 11)) (dof_int shadow_offset)) = 515"
  "dtrunc (dadd (text_y (0, 0, 6, 11)) (dof_int shadow_offset)) = 502"
  by (simp_all add: pos_eval)

lemma large_letter_mask:
  "glyph_mask large_font (text_x (textbbox large_font), text_y (textbbox large_font)) p =
     (if 362 \<le> fst p \<and> fst p < 662 \<and> 302 \<le> snd p \<and> snd p < 702 then 255 else 0)"
  by (simp add: large_font_def block_font_def block_glyph_def large_letter_pos
      del: text_x.simps text_y.simps)

lemma large_shadow_mask:
  "glyph_mask large_font (dadd (text_x (textbbox large_font)) (dof_int shadow_offset),
                          dadd (text_y (textbbox large_font)) (dof_int shadow_offset)) p =
     (if 368 \<le> fst p \<and> fst p < 668 \<and> 308 \<le> snd p \<and> snd p < 708 then 255 else 0)"
  by (simp add: large_font_def block_font_def block_glyph_def large_shadow_pos
      del: text_x.simps text_y.simps)

lemma small_letter_mask:
  "glyph_mask small_font (text_x (textbbox small_font), text_y (textbbox small_font)) p =
     (if 509 \<le> fst p \<and> fst p < 515 \<and> 496 \<le> snd p \<and> snd p < 507 then 255 else 0)"
  by (simp add: small_font_def block_font_def block_glyph_def small_letter_pos
      del: text_x.simps text_y.simps)

lemma small_shadow_mask:
  "glyph_mask small_font (dadd (text_x (textbbox small_font)) (dof_int shadow_offset),
                          dadd (text_y (textbbox small_font)) (dof_int shadow_offset)) p =
     (if 515 \<le> fst p \<and> fst p < 521 \<and> 502 \<le> snd p \<and> snd p < 513 then 255 else 0)"
  by (simp add: small_font_def block_font_def block_glyph_def small_shadow_pos
      del: text_x.simps text_y.simps)

text \<open>
  The pixels the examples look at. With the large font \<open>(512, 512)\<close> and \<open>(515, 505)\<close>
  are inside the letter and \<open>(665, 500)\<close> is inside the shadow only; with the small font
  \<open>(515, 505)\<close> is inside the shadow only.
\<close>

lemma large_font_letter_pixel:
  assumes "362 \<le> fst p \<and> fst p < 662 \<and> 302 \<le> snd p \<and> snd p < 702"
  shows "px (with_letter ras large_font) p = (255, 255, 255, 245)"
proof -
  have "glyph_mask large_font (text_x (textbbox large_font), text_y (textbbox large_font)) p = 255"
    by (simp only: large_letter_mask if_P [OF assms])
  then show ?thesis by (simp only: with_letter_def px_draw_text fill_pixel_full_letter)
qed

lemma shadow_only_pixel:
  assumes "glyph_mask f (text_x (textbbox f), text_y (textbbox f)) p = 0"
    and "glyph_mask f (dadd (text_x (textbbox f)) (dof_int shadow_offset),
                       dadd (text_y (textbbox f)) (dof_int shadow_offset)) p = 255"
  shows "px (with_letter ras f) p = (0, 0, 0, 35)"
  by (simp only: with_letter_def with_shadow_def px_draw_text assms fill_pixel_full_shadow
      fill_pixel_none)

lemma large_font_shadow_pixel:
  assumes "368 \<le> fst p \<and> fst p < 668 \<and> 308 \<le> snd p \<and> snd p < 708"
    and "\<not> (362 \<le> fst p \<and> fst p < 662 \<and> 302 \<le> snd p \<and> snd p < 702)"
  shows "px (with_letter ras large_font) p = (0, 0, 0, 35)"
  by (rule shadow_only_pixel)
     (simp_all only: large_letter_mask large_shadow_mask if_P [OF assms(1)] if_not_P [OF assms(2)])

lemma small_font_shadow_pixel:
  assumes "515 \<le> fst p \<and> fst p < 521 \<and> 502 \<le> snd p \<and> snd p < 513"
    and "\<not> (509 \<le> fst p \<and> fst p < 515 \<and> 496 \<le> snd p \<and> snd p < 507)"
  shows "px (with_letter ras small_font) p = (0, 0, 0, 35)"
  by (rule shadow_only_pixel)
     (simp_all only: small_letter_mask small_shadow_mask if_P [OF assms(1)] if_not_P [OF assms(2)])

lemma exact_mask_inside:
  assumes "224 \<le> fst p \<and> fst p \<le> 799 \<and> 0 \<le> snd p \<and> snd p \<le> 1023"
  shows "px (mask exact_raster) p = 255"
proof -
  obtain x y where p: "p = (x, y)" by (cases p) auto
  have "corner_excess 0 1023 224 x = 0" using assms by (simp add: p corner_excess_def)
  moreover have "corner_excess 0 1023 224 y \<le> 224 \<and> 0 \<le> corner_excess 0 1023 224 y"
    using assms by (auto simp: p corner_excess_def)
  then have "(corner_excess 0 1023 224 y)\<^sup>2 \<le> 224\<^sup>2"
    by (intro power_mono) simp_all
  ultimately show ?thesis
    using assms by (simp add: px_mask exact_raster_def p SIZE_def corner_radius_def)
qed

lemma exact_mask_corner: "px (mask exact_raster) (0, 0) = 0"
  by (simp add: px_mask exact_raster_def SIZE_def corner_radius_def corner_excess_def)

text \<open>Font resolution on the example machines.\<close>

lemma resolve_font_mac: "resolve_font mac_env = large_font"
  by (simp add: resolve_font_def font_paths_def mac_env_def georgia_bold_def)

lemma resolve_font_bare: "resolve_font bare_env = small_font"
  by (simp add: resolve_font_def font_paths_def bare_env_def)

lemma resolve_font_other_mac: "resolve_font other_mac_env = large_font"
  by (simp add: resolve_font_def font_paths_def other_mac_env_def georgia_def)



section \<open>The gradient canvas\<close>

text \<open>
  C1. For every row \<open>y\<close> with \<open>0 \<le> y < SIZE\<close> (\<open>SIZE\<close> is 1024), every pixel of row \<open>y\<close>
  of the gradient canvas has the colour of the piecewise interpolation of the
  specification, computed exactly over the reals and truncated, and alpha 255: the float
  arithmetic of the script gives the same integers on all 1024 rows.
\<close>

theorem gradient_row_colors:
  assumes "0 \<le> y" and "y < SIZE" and "0 \<le> x" and "x < SIZE"
  shows "getpixel gradient_canvas (x, y) = Inr (with_alpha (spec_row_color y) 255)"
proof -
  have "y < 1024" using assms by (simp add: SIZE_def)
  then have "row_color y = spec_row_color y" using assms by (intro row_color_exact)
  then show ?thesis
    using assms
    by (simp add: getpixel_def wrap_xy_def wrap_index_def in_image_def size_gradient_canvas
        px_gradient_canvas)
qed

theorem gradient_row_colors_witness:
  "(0::int) \<le> 96 \<and> 96 < SIZE \<and> (0::int) \<le> 7 \<and> 7 < SIZE
   \<and> getpixel gradient_canvas (7, 96) = Inr (240, 208, 173, 255)"
proof -
  have s: "spec_row_color 96 = (240, 208, 173)"
    by (simp add: spec_row_color_def spec_gradient_at_def SIZE_def rtrunc_def
        color_top_def color_mid1_def)
  have "getpixel gradient_canvas (7, 96) = Inr (with_alpha (spec_row_color 96) 255)"
    by (rule gradient_row_colors) (simp_all add: SIZE_def)
  then show ?thesis by (simp add: s SIZE_def)
qed

section \<open>The centred square crop\<close>

text \<open>
  C2. For a source image of width \<open>w \<ge> 1\<close> and height \<open>h \<ge> 1\<close>, \<open>crop_square_center\<close>
  hands \<open>crop\<close> the box with corner \<open>((w - s) div 2, (h - s) div 2)\<close> and side
  \<open>s = min w h\<close>; the result is \<open>s\<close> by \<open>s\<close>, and each of its pixels \<open>(x, y)\<close>,
  \<open>0 \<le> x < s\<close> and \<open>0 \<le> y < s\<close>, is the source's pixel at
  \<open>(x + (w - s) div 2, y + (h - s) div 2)\<close>, a position inside the source.
\<close>

theorem crop_square_center_spec:
  assumes "1 \<le> width img" and "1 \<le> height img"
    and "s = min (width img) (height img)"
    and "l = (width img - s) div 2" and "t = (height img - s) div 2"
  shows "crop_box img = (l, t, l + s, t + s)
       \<and> size_of (crop_square_center zero img) = (s, s)
       \<and> (\<forall>x y. 0 \<le> x \<and> x < s \<and> 0 \<le> y \<and> y < s \<longrightarrow>
              getpixel (crop_square_center zero img) (x, y) = Inr (px img (x + l, y + t))
              \<and> getpixel img (x + l, y + t) = Inr (px img (x + l, y + t)))"
proof -
  have box: "crop_box img = (l, t, l + s, t + s)"
    using assms by (simp add: crop_box_def Let_def)
  have s1: "1 \<le> s" using assms by simp
  have l0: "0 \<le> l" "l + s \<le> width img" using assms by (auto simp: min_def)
  have t0: "0 \<le> t" "t + s \<le> height img" using assms by (auto simp: min_def)
  have sz: "size_of (crop_square_center zero img) = (s, s)"
    using s1 by (simp add: crop_square_center_def box size_of_def)
  have pix: "getpixel (crop_square_center zero img) (x, y) = Inr (px img (x + l, y + t))
             \<and> getpixel img (x + l, y + t) = Inr (px img (x + l, y + t))"
    if "0 \<le> x \<and> x < s \<and> 0 \<le> y \<and> y < s" for x y
  proof -
    have src: "in_image img (x + l, y + t)"
      using that l0 t0 by (simp add: in_image_def)
    have "in_image (crop_square_center zero img) (x, y)"
      using that s1 by (simp add: crop_square_center_def box in_image_def)
    then have "getpixel (crop_square_center zero img) (x, y) = Inr (px (crop_square_center zero img) (x, y))"
      by (rule getpixel_inside)
    also have "px (crop_square_center zero img) (x, y) = px img (x + l, y + t)"
      using src by (simp add: crop_square_center_def box)
    finally show ?thesis using getpixel_inside [OF src] by simp
  qed
  show ?thesis using box sz pix by blast
qed

theorem crop_square_center_spec_witness:
  "crop_box wide_image = (500, 0, 1500, 1000)
   \<and> size_of (crop_square_center 0 wide_image) = (1000, 1000)
   \<and> getpixel (crop_square_center 0 wide_image) (0, 0) = Inr 500
   \<and> getpixel (crop_square_center 0 wide_image) (999, 999) = Inr 1999499"
proof -
  have w: "width wide_image = 2000" and h: "height wide_image = 1000"
    and p: "px wide_image (500, 0) = 500" "px wide_image (1499, 999) = 1999499"
    by (simp_all add: wide_image_def)
  have "crop_box wide_image = (500, 0, 500 + 1000, 0 + 1000)
       \<and> size_of (crop_square_center 0 wide_image) = (1000, 1000)
       \<and> (\<forall>x y. 0 \<le> x \<and> x < 1000 \<and> 0 \<le> y \<and> y < 1000 \<longrightarrow>
              getpixel (crop_square_center 0 wide_image) (x, y) = Inr (px wide_image (x + 500, y + 0))
              \<and> getpixel wide_image (x + 500, y + 0) = Inr (px wide_image (x + 500, y + 0)))"
    by (rule crop_square_center_spec) (simp_all add: w h)
  then have b: "crop_box wide_image = (500, 0, 500 + 1000, 0 + 1000)"
    and s: "size_of (crop_square_center 0 wide_image) = (1000, 1000)"
    and g: "\<And>x y. 0 \<le> x \<and> x < 1000 \<and> 0 \<le> y \<and> y < 1000 \<Longrightarrow>
              getpixel (crop_square_center 0 wide_image) (x, y) = Inr (px wide_image (x + 500, y + 0))"
    by blast+
  have g0: "getpixel (crop_square_center 0 wide_image) (0, 0) = Inr (px wide_image (0 + 500, 0 + 0))"
    by (rule g) simp
  have g1: "getpixel (crop_square_center 0 wide_image) (999, 999) = Inr (px wide_image (999 + 500, 999 + 0))"
    by (rule g) simp
  show ?thesis using b s g0 g1 p by simp
qed
section \<open>The circles of the glow\<close>

lemma draw_glow_circle_spec:
  assumes "r \<in> set glow_radii"
  shows "draw_glow_circle ras r img =
         draw_shape (ellipse ras (SIZE div 2 - r, SIZE div 3 - r, SIZE div 2 + r, SIZE div 3 + r))
           (255, 255, 255, spec_glow_alpha r) img"
  using glow_radii_bounds [OF assms]
  by (simp add: draw_glow_circle_def circle_box_def center_x_def center_y_def glow_alpha_exact)

text \<open>
  C3, as the code has it. \<open>range(max_radius, 0, -2)\<close> gives the even radii
  512, 510, \<dots>, 2, in that order: the last and smallest circle has radius 2, and radius 1
  is not drawn. Every circle is an ellipse in the box
  \<open>[S div 2 - r, S div 3 - r, S div 2 + r, S div 3 + r]\<close>, filled with white at alpha
  \<open>floor (40 * (1 - r / R)\<^sup>2)\<close>: the float computation of the script gives that integer
  at every drawn radius. The glow layer is these circles drawn in that order on a
  transparent image.
\<close>

theorem glow_circles:
  "glow_radii = map (\<lambda>k. max_radius - 2 * int k) [0..<256]
   \<and> last glow_radii = 2
   \<and> (\<forall>r\<in>set glow_radii. \<forall>img. draw_glow_circle ras r img =
         draw_shape (ellipse ras (SIZE div 2 - r, SIZE div 3 - r, SIZE div 2 + r, SIZE div 3 + r))
           (255, 255, 255, spec_glow_alpha r) img)
   \<and> glow_layer ras glow_radii =
         fold (draw_glow_circle ras) glow_radii (new_image (SIZE, SIZE) (0, 0, 0, 0))"
proof -
  have "glow_radii = map (\<lambda>k. max_radius - 2 * int k) [0..<256]"
    by (simp add: glow_radii_eq max_radius_def SIZE_def)
  moreover have "last glow_radii = 2" by (simp add: glow_radii_snoc)
  moreover have "glow_layer ras glow_radii =
         fold (draw_glow_circle ras) glow_radii (new_image (SIZE, SIZE) (0, 0, 0, 0))"
    by (simp add: glow_layer_def)
  ultimately show ?thesis using draw_glow_circle_spec by blast
qed

theorem glow_circles_witness:
  "2 \<in> set glow_radii
   \<and> draw_glow_circle exact_raster 2 (new_image (SIZE, SIZE) (0, 0, 0, 0)) =
       draw_shape (ellipse exact_raster (510, 339, 514, 343)) (255, 255, 255, 39)
         (new_image (SIZE, SIZE) (0, 0, 0, 0))"
proof -
  have m: "2 \<in> set glow_radii" by (simp add: set_glow_radii)
  have a: "spec_glow_alpha 2 = 39" by (simp add: spec_glow_alpha_div)
  from glow_circles [of exact_raster] m
  have "draw_glow_circle exact_raster 2 (new_image (SIZE, SIZE) (0, 0, 0, 0)) =
         draw_shape (ellipse exact_raster (SIZE div 2 - 2, SIZE div 3 - 2, SIZE div 2 + 2, SIZE div 3 + 2))
           (255, 255, 255, spec_glow_alpha 2) (new_image (SIZE, SIZE) (0, 0, 0, 0))"
    by blast
  then show ?thesis using m by (simp add: a SIZE_def)
qed

text \<open>The radius 1 of the claim as it was stated is not among the drawn radii.\<close>

theorem glow_radius_one_not_drawn: "1 \<notin> set glow_radii"
  by (simp add: set_glow_radii)
section \<open>The falloff of the glow\<close>



section \<open>Applying the mask\<close>

text \<open>
  C5, as the code has it. \<open>putalpha\<close> replaces the alpha of every pixel by the value of
  the mask there, whatever the alpha was: that is so for any image and any mask, and in
  particular after each of the three applications of the mask in \<open>create_icon\<close>. The
  result is the minimum of the alpha before and the mask value exactly where the mask
  value is not above the alpha before.
\<close>

theorem mask_application:
  "alpha_of (px (putalpha img m) p) = px m p
   \<and> alpha_of (px (masked_gradient ras) p) = px (mask ras) p
   \<and> alpha_of (px (masked_glow ras) p) = px (mask ras) p
   \<and> alpha_of (px (create_icon ras e) p) = px (mask ras) p
   \<and> (alpha_of (px (putalpha img m) p) = min (alpha_of (px img p)) (px m p)
        \<longleftrightarrow> px m p \<le> alpha_of (px img p))"
  by (auto simp: alpha_putalpha masked_gradient_def masked_glow_def create_icon_def)

text \<open>
  With the large font on the first machine the pixel \<open>(512, 512)\<close> is inside the letter:
  before the last application of the mask its alpha is 245, the mask is 255 there, and
  afterwards the alpha is 255, not the minimum 245.
\<close>

theorem mask_is_not_minimum:
  "alpha_of (px (with_letter exact_raster (resolve_font mac_env)) (512, 512)) = 245
   \<and> px (mask exact_raster) (512, 512) = 255
   \<and> create_icon exact_raster mac_env
       = putalpha (with_letter exact_raster (resolve_font mac_env)) (mask exact_raster)
   \<and> alpha_of (px (create_icon exact_raster mac_env) (512, 512)) = 255
   \<and> min (245::int) 255 \<noteq> 255"
  by (simp add: resolve_font_mac large_font_letter_pixel exact_mask_inside create_icon_def
      alpha_putalpha)
section \<open>Cropping and resizing an image of the target size\<close>

text \<open>
  C6. For a square image of side 1024, \<open>crop_square_center\<close> crops with the box
  \<open>(0, 0, 1024, 1024)\<close> and returns an image of the same size with the same pixels, and
  the resize to \<open>(TARGET_SIZE, TARGET_SIZE)\<close> returns that image without resampling it,
  whatever the resampling filter does: the final icon has the pixels of the input,
  exactly.
\<close>

theorem crop_resize_idempotent:
  assumes "width img = 1024" and "height img = 1024"
  shows "crop_box img = (0, 0, 1024, 1024)
       \<and> size_of (crop_square_center zero img) = size_of img
       \<and> (\<forall>p. getpixel (crop_square_center zero img) p = getpixel img p)
       \<and> resize lanczos (TARGET_SIZE, TARGET_SIZE) (crop_square_center zero img)
           = crop_square_center zero img
       \<and> (\<forall>p. getpixel (resize lanczos (TARGET_SIZE, TARGET_SIZE) (crop_square_center zero img)) p
              = getpixel img p)"
proof -
  have box: "crop_box img = (0, 0, 1024, 1024)"
    using assms by (simp add: crop_box_def Let_def)
  have sz: "size_of (crop_square_center zero img) = size_of img"
    using assms by (simp add: crop_square_center_def box size_of_def)
  have pix: "getpixel (crop_square_center zero img) p = getpixel img p" for p
  proof (rule getpixel_cong [OF sz])
    fix q assume "in_image (crop_square_center zero img) q"
    then have "in_image img q" using sz by (simp add: in_image_def size_of_def)
    then show "px (crop_square_center zero img) q = px img q"
      by (simp add: crop_square_center_def box)
  qed
  have rs: "resize lanczos (TARGET_SIZE, TARGET_SIZE) (crop_square_center zero img)
              = crop_square_center zero img"
    using assms sz by (simp add: resize_def TARGET_SIZE_def size_of_def)
  show ?thesis using box sz pix rs by simp
qed

theorem crop_resize_idempotent_witness:
  "crop_box square_image = (0, 0, 1024, 1024)
   \<and> getpixel (resize blank_resampler (TARGET_SIZE, TARGET_SIZE)
                 (crop_square_center (0, 0, 0, 0) square_image)) (300, 5) = Inr (44, 5, 49, 255)
   \<and> getpixel square_image (300, 5) = Inr (44, 5, 49, 255)"
proof -
  have w: "width square_image = 1024" and h: "height square_image = 1024"
    by (simp_all add: square_image_def)
  have g: "getpixel square_image (300, 5) = Inr (44, 5, 49, 255)"
    by (simp add: getpixel_def wrap_xy_def wrap_index_def in_image_def square_image_def)
  from crop_resize_idempotent [OF w h, of "(0, 0, 0, 0)" blank_resampler]
  have "crop_box square_image = (0, 0, 1024, 1024)"
    and "getpixel (resize blank_resampler (TARGET_SIZE, TARGET_SIZE)
                 (crop_square_center (0, 0, 0, 0) square_image)) (300, 5)
          = getpixel square_image (300, 5)"
    by blast+
  then show ?thesis using g by simp
qed
section \<open>What the icon depends on\<close>

text \<open>
  C7, as the code has it. \<open>create_icon\<close> reads the machine it runs on: which of the font
  files exist, what loading them gives, and the built-in font. Two runs that resolve the
  same font give the same image, pixel for pixel; and whatever the fonts are, the two
  images have the same alpha everywhere.
\<close>

theorem icon_determined_by_font:
  assumes "resolve_font e1 = resolve_font e2"
  shows "create_icon ras e1 = create_icon ras e2
       \<and> (\<forall>p. getpixel (create_icon ras e1) p = getpixel (create_icon ras e2) p)
       \<and> (\<forall>p. alpha_of (px (create_icon ras e1) p) = alpha_of (px (create_icon ras e3) p))"
proof -
  have "create_icon ras e1 = create_icon ras e2" using assms by (simp add: create_icon_def)
  moreover have "alpha_of (px (create_icon ras e1) p) = alpha_of (px (create_icon ras e3) p)" for p
    by (simp add: create_icon_def alpha_putalpha)
  ultimately show ?thesis by simp
qed

theorem icon_determined_by_font_witness:
  "resolve_font mac_env = resolve_font other_mac_env
   \<and> mac_env \<noteq> other_mac_env
   \<and> create_icon exact_raster mac_env = create_icon exact_raster other_mac_env"
proof -
  have r: "resolve_font mac_env = resolve_font other_mac_env"
    by (simp add: resolve_font_mac resolve_font_other_mac)
  have "path_exists mac_env georgia_bold \<noteq> path_exists other_mac_env georgia_bold"
    by (simp add: mac_env_def other_mac_env_def georgia_def georgia_bold_def)
  then have d: "mac_env \<noteq> other_mac_env" by auto
  from icon_determined_by_font [OF r] show ?thesis using r d by simp
qed

text \<open>
  Two machines, one with the first font file of the list and one with no font file at
  all, give different icons: the pixel \<open>(515, 505)\<close> is white on the first, inside the large
  letter, and black on the second, inside the shadow of the small letter of the built-in
  font.
\<close>

theorem icon_depends_on_fonts:
  "getpixel (create_icon exact_raster mac_env) (515, 505) = Inr (255, 255, 255, 255)
   \<and> getpixel (create_icon exact_raster bare_env) (515, 505) = Inr (0, 0, 0, 255)"
proof -
  have i: "in_image (create_icon exact_raster e) (515, 505)" for e
    using size_create_icon [of exact_raster e] by (simp add: in_image_def size_of_def SIZE_def)
  have m: "px (mask exact_raster) (515, 505) = 255" by (rule exact_mask_inside) simp
  have a: "px (create_icon exact_raster mac_env) (515, 505) = (255, 255, 255, 255)"
    by (simp add: create_icon_def px_putalpha resolve_font_mac large_font_letter_pixel m)
  have b: "px (create_icon exact_raster bare_env) (515, 505) = (0, 0, 0, 255)"
    by (simp add: create_icon_def px_putalpha resolve_font_bare small_font_shadow_pixel m)
  show ?thesis using getpixel_inside [OF i] a b by simp
qed
section \<open>A source image that cannot be loaded\<close>

lemma image_open_fails:
  "files w path = None \<Longrightarrow> image_open w path = Inl FileNotFoundError"
  "files w path = Some OtherFile \<Longrightarrow> image_open w path = Inl UnidentifiedImageError"
  by (simp_all add: image_open_def)

text \<open>
  C8. When the source path does not exist, or the file there is not an image, the run of
  \<open>process_icon.py\<close> ends with the exception of \<open>Image.open\<close> (FileNotFoundError in the
  first case, UnidentifiedImageError in the second) and leaves the file system as it was:
  none of the four asset files is written.
\<close>

theorem source_failure_writes_nothing:
  assumes "files w SOURCE = None \<or> files w SOURCE = Some OtherFile"
  shows "process_main lanczos w =
           (Inl (if files w SOURCE = None then FileNotFoundError else UnidentifiedImageError), w)
       \<and> (\<forall>name\<in>set asset_names.
             files (snd (process_main lanczos w)) (asset_path name) = files w (asset_path name))"
proof -
  have "process_main lanczos w =
           (Inl (if files w SOURCE = None then FileNotFoundError else UnidentifiedImageError), w)"
    using assms by (auto simp: process_main_def image_open_fails)
  then show ?thesis by simp
qed

theorem source_failure_writes_nothing_witness:
  "process_main blank_resampler empty_world = (Inl FileNotFoundError, empty_world)
   \<and> process_main blank_resampler garbage_world = (Inl UnidentifiedImageError, garbage_world)"
proof -
  have e: "files empty_world SOURCE = None" by (simp add: empty_world_def)
  have g: "files garbage_world SOURCE = Some OtherFile" by (simp add: garbage_world_def)
  from e have e': "files empty_world SOURCE = None \<or> files empty_world SOURCE = Some OtherFile" by simp
  from g have g': "files garbage_world SOURCE = None \<or> files garbage_world SOURCE = Some OtherFile"
    by simp
  from source_failure_writes_nothing [OF e', of blank_resampler]
       source_failure_writes_nothing [OF g', of blank_resampler]
  show ?thesis by (simp add: e g)
qed
section \<open>Font resolution\<close>


section \<open>The alpha of the finished icon\<close>

text \<open>
  C10. In the icon \<open>create_icon\<close> returns, the alpha of every pixel is the value of the
  mask there, whatever the earlier steps left: 255 on the pixels the rounded rectangle
  covers and 0 on all others. The icon has the size of the mask.
\<close>

theorem final_alpha_is_mask:
  "alpha_of (px (create_icon ras e) p) = px (mask ras) p
   \<and> px (mask ras) p =
       (if rounded_rectangle ras ((0, 0), (SIZE - 1, SIZE - 1)) corner_radius p then 255 else 0)
   \<and> size_of (create_icon ras e) = (SIZE, SIZE)"
  by (simp add: create_icon_def alpha_putalpha px_mask size_create_icon [unfolded create_icon_def])

text \<open>
  On the first machine: a pixel of the letter (alpha 245 before the last step), a pixel
  of the shadow only (alpha 35 before) and the corner pixel, outside the silhouette.
\<close>

theorem final_alpha_is_mask_witness:
  "alpha_of (px (with_letter exact_raster large_font) (400, 400)) = 245
   \<and> alpha_of (px (create_icon exact_raster mac_env) (400, 400)) = 255
   \<and> alpha_of (px (with_letter exact_raster large_font) (665, 500)) = 35
   \<and> alpha_of (px (create_icon exact_raster mac_env) (665, 500)) = 255
   \<and> alpha_of (px (create_icon exact_raster mac_env) (0, 0)) = 0"
proof -
  have m: "px (mask exact_raster) (400, 400) = 255" "px (mask exact_raster) (665, 500) = 255"
    by (rule exact_mask_inside, simp)+
  have l: "px (with_letter exact_raster large_font) (400, 400) = (255, 255, 255, 245)"
    by (rule large_font_letter_pixel) simp
  have s: "px (with_letter exact_raster large_font) (665, 500) = (0, 0, 0, 35)"
    by (rule large_font_shadow_pixel) simp_all
  from final_alpha_is_mask [of exact_raster mac_env "(400, 400)"]
       final_alpha_is_mask [of exact_raster mac_env "(665, 500)"]
       final_alpha_is_mask [of exact_raster mac_env "(0, 0)"]
  show ?thesis using m l s exact_mask_corner by simp
qed

end
